theory Spec2Isabelle
  imports Main "HOL-Library.AList" "HOL-Library.Multiset"
begin

section \<open>Time values\<close>

text \<open>
  A \<^verbatim>\<open>time.Time\<close> is read as an instant: the number of nanoseconds after the zero
  time (January 1, year 1, 00:00:00 UTC), which may be negative. Every time the
  scheduler handles went through \<^verbatim>\<open>In(c.location)\<close>, which keeps the instant and drops
  the monotonic clock reading, so \<^verbatim>\<open>IsZero\<close>, \<^verbatim>\<open>Before\<close> and \<^verbatim>\<open>After\<close> compare instants.
  \<^verbatim>\<open>Sub\<close> saturates at the ends of the 64-bit \<^verbatim>\<open>Duration\<close>.
\<close>

type_synonym Time = int

type_synonym Duration = int

definition IsZero :: "Time \<Rightarrow> bool" where
  "IsZero t = (t = 0)"

definition Before :: "Time \<Rightarrow> Time \<Rightarrow> bool" where
  "Before t u = (t < u)"

definition After :: "Time \<Rightarrow> Time \<Rightarrow> bool" where
  "After t u = (u < t)"

definition Sub :: "Time \<Rightarrow> Time \<Rightarrow> Duration" where
  "Sub t u = max (- (2 ^ 63)) (min (2 ^ 63 - 1) (t - u))"

definition Hour :: Duration where
  "Hour = 3600 * 1000000000"

section \<open>Jobs, schedules and entries\<close>

text \<open>
  A \<^verbatim>\<open>Schedule\<close> is its \<^verbatim>\<open>Next\<close> method. A job body is opaque to the scheduler: all that
  the scheduler can observe of a call of \<^verbatim>\<open>Run\<close> is whether it returns or panics, and
  with which value. A \<^verbatim>\<open>func()\<close> carries a label that tells two closures apart.
\<close>

type_synonym Schedule = "Time \<Rightarrow> Time"

datatype outcome = Returns | Panics string

type_synonym func = "string \<times> outcome"

datatype Job = FuncJob func

fun Job_Run :: "Job \<Rightarrow> outcome" where
  "Job_Run (FuncJob f) = snd f"

record Entry =
  Schedule :: Schedule
  Next :: Time
  Prev :: Time
  Name :: string
  Job :: Job

section \<open>The scheduler and the objects it points to\<close>

text \<open>
  The registry \<^verbatim>\<open>map[string]*Entry\<close> is an association list from names to pointers, and
  a pointer is an index into \<open>heap\<close>, the list of all \<^verbatim>\<open>Entry\<close> objects allocated so far
  (allocation appends).

  The loop goroutine is at one of these places: it has been created and stands before
  \<^verbatim>\<open>run\<close>'s first statement (\<open>Entered\<close>); it is at the head of the outer \<^verbatim>\<open>for\<close> with its
  local \<^verbatim>\<open>now\<close> (\<open>Top\<close>); it is blocked in the \<^verbatim>\<open>select\<close> with its local sorted slice, its
  \<^verbatim>\<open>now\<close> and the duration its timer was set to (\<open>Select\<close>); it has received an entry on
  \<^verbatim>\<open>add\<close> or \<^verbatim>\<open>update\<close>, has set its \<^verbatim>\<open>Next\<close> and stands before \<^verbatim>\<open>c.mu.Lock()\<close> (\<open>AddLock\<close>,
  \<open>UpdateLock\<close>); it has received a snapshot request and stands before the read lock of
  \<^verbatim>\<open>entrySnapshot\<close> (\<open>SnapLock\<close>); or it has made the snapshot and is blocked sending it on
  \<^verbatim>\<open>snapshot\<close> (\<open>SnapSend\<close>).

  \<open>blocked\<close> holds the callers that are blocked in a channel operation: sending a pointer
  on \<^verbatim>\<open>add\<close> or on \<^verbatim>\<open>update\<close> (in \<^verbatim>\<open>Schedule\<close>), sending the \<^verbatim>\<open>nil\<close> request on \<^verbatim>\<open>snapshot\<close>, or
  receiving the answer from \<^verbatim>\<open>snapshot\<close> (in \<^verbatim>\<open>Entries\<close>). Such a caller has not returned.
  \<open>mu\<close> says that \<^verbatim>\<open>c.mu\<close> is held by a caller of \<^verbatim>\<open>Schedule\<close> that is blocked sending on
  \<^verbatim>\<open>update\<close>: the one place where the mutex is held across a blocking operation. Every
  other critical section is taken whole, and can be entered only when \<open>mu\<close> is false.
  \<open>answers\<close> lists what the calls of \<^verbatim>\<open>Entries\<close> have returned, in the order of their
  returns (\<open>None\<close> for a \<^verbatim>\<open>nil\<close> slice), \<open>spawned\<close> the jobs handed to
  \<^verbatim>\<open>go c.runWithRecovery\<close>, in order, and \<open>stdlog\<close> what went to the standard logger.
\<close>

datatype loop =
    Entered
  | Top Time
  | Select "nat list" Time Duration
  | AddLock nat Time
  | UpdateLock nat Time
  | SnapLock "nat list" Time Duration
  | SnapSend "nat list" Time Duration "nat list"

datatype msg = AddMsg nat | UpdateMsg nat | SnapReq | SnapWait

record Cron =
  entries :: "(string \<times> nat) list"
  heap :: "Entry list"
  running :: bool
  ErrorLog :: "string list option"
  stdlog :: "string list"
  loop :: "loop option"
  blocked :: "msg list"
  spawned :: "Job list"
  mu :: bool
  answers :: "nat list option list"

subsection \<open>byTime\<close>

text \<open>\<^verbatim>\<open>byTime.Less(i, j)\<close>, given the two pointers \<^verbatim>\<open>s[i]\<close> and \<^verbatim>\<open>s[j]\<close>.\<close>

definition Less :: "Entry list \<Rightarrow> nat \<Rightarrow> nat \<Rightarrow> bool" where
  "Less h si sj =
     (if IsZero (Next (h ! si)) then False
      else if IsZero (Next (h ! sj)) then True
      else Before (Next (h ! si)) (Next (h ! sj)))"

text \<open>
  What \<^verbatim>\<open>sort.Sort\<close> promises of its result: no element is \<^verbatim>\<open>Less\<close> than one standing
  before it.
\<close>

definition byTime_sorted :: "Entry list \<Rightarrow> nat list \<Rightarrow> bool" where
  "byTime_sorted h s = sorted_wrt (\<lambda>a b. \<not> Less h b a) s"

text \<open>
  \<^verbatim>\<open>sort.Sort\<close> is the standard library's; the loop takes it as the parameter \<open>srt\<close>, which
  also stands for the order in which \<^verbatim>\<open>mapToSlice\<close> ranges over the map. \<open>sorter\<close> is its
  contract. \<open>sort_byTime\<close> is one sorting procedure that calls nothing but \<^verbatim>\<open>Less\<close>
  (insertion from the right, which keeps ties in their order).
\<close>

definition sorter :: "(Entry list \<Rightarrow> nat list \<Rightarrow> nat list) \<Rightarrow> bool" where
  "sorter srt = (\<forall>h s. mset (srt h s) = mset s \<and> byTime_sorted h (srt h s))"

fun insert_byTime :: "Entry list \<Rightarrow> nat \<Rightarrow> nat list \<Rightarrow> nat list" where
  "insert_byTime h a [] = [a]"
| "insert_byTime h a (b # bs) =
     (if Less h b a then b # insert_byTime h a bs else a # b # bs)"

fun sort_byTime :: "Entry list \<Rightarrow> nat list \<Rightarrow> nat list" where
  "sort_byTime h [] = []"
| "sort_byTime h (a # as) = insert_byTime h a (sort_byTime h as)"

subsection \<open>Construction, registration, removal\<close>

definition New :: Cron where
  "New = \<lparr>entries = [], heap = [], running = False, ErrorLog = None, stdlog = [],
          loop = None, blocked = [], spawned = [], mu = False, answers = []\<rparr>"

text \<open>
  \<^verbatim>\<open>Schedule\<close>, from its first statement to its return or to the send it blocks in, for a
  caller that gets the mutex where the code takes it. On a running scheduler the update
  branch leaves the mutex held (the deferred \<^verbatim>\<open>Unlock\<close> runs only after the send).
\<close>

definition Schedule_c :: "Schedule \<Rightarrow> string \<Rightarrow> Job \<Rightarrow> bool \<Rightarrow> Cron \<Rightarrow> Cron" where
  "Schedule_c schedule name cmd update c =
     (let entry = length (heap c);
          c1 = c\<lparr>heap := heap c @ [\<lparr>Schedule = schedule, Next = 0, Prev = 0,
                                     Name = name, Job = cmd\<rparr>]\<rparr>
      in if \<not> running c then
           (if map_of (entries c1) name = None
            then c1\<lparr>entries := AList.update name entry (entries c1)\<rparr>
            else c1)
         else if update then
           c1\<lparr>entries := AList.update name entry (entries c1),
              blocked := blocked c1 @ [UpdateMsg entry], mu := True\<rparr>
         else c1\<lparr>blocked := blocked c1 @ [AddMsg entry]\<rparr>)"

text \<open>
  Where a call stands after its first step: it has returned, with its error value
  (\<open>None\<close> for \<^verbatim>\<open>nil\<close>); or it is blocked in a send and returns \<^verbatim>\<open>nil\<close> when the loop
  has received what it sends; or it is blocked in \<^verbatim>\<open>c.mu.Lock()\<close>, with nothing done.
  \<open>Schedule_waits\<close> says that \<^verbatim>\<open>Schedule\<close> comes to a \<^verbatim>\<open>Lock\<close> that it cannot take.
\<close>

datatype 'e called = Returned "'e option" | Sending msg | Locking

definition Schedule_waits :: "bool \<Rightarrow> Cron \<Rightarrow> bool" where
  "Schedule_waits update c = (mu c \<and> (update \<or> \<not> running c))"

definition Schedule_call :: "Schedule \<Rightarrow> string \<Rightarrow> Job \<Rightarrow> bool \<Rightarrow> Cron \<Rightarrow> 'e called \<times> Cron" where
  "Schedule_call schedule name cmd update c =
     (if Schedule_waits update c then (Locking, c)
      else (if \<not> running c then Returned None
            else if update then Sending (UpdateMsg (length (heap c)))
            else Sending (AddMsg (length (heap c))),
            Schedule_c schedule name cmd update c))"

text \<open>
  \<^verbatim>\<open>Parse\<close> is not part of the scheduler; the registration calls take it as a parameter.
\<close>

definition AddJob :: "(string \<Rightarrow> 'e + Schedule) \<Rightarrow> string \<Rightarrow> string \<Rightarrow> Job \<Rightarrow> Cron
    \<Rightarrow> 'e called \<times> Cron" where
  "AddJob Parse spec name cmd c =
     (case Parse spec of
        Inl err \<Rightarrow> (Returned (Some err), c)
      | Inr schedule \<Rightarrow> Schedule_call schedule name cmd False c)"

definition UpdateJob :: "(string \<Rightarrow> 'e + Schedule) \<Rightarrow> string \<Rightarrow> string \<Rightarrow> Job \<Rightarrow> Cron
    \<Rightarrow> 'e called \<times> Cron" where
  "UpdateJob Parse spec name cmd c =
     (case Parse spec of
        Inl err \<Rightarrow> (Returned (Some err), c)
      | Inr schedule \<Rightarrow> Schedule_call schedule name cmd True c)"

definition AddFunc :: "(string \<Rightarrow> 'e + Schedule) \<Rightarrow> string \<Rightarrow> string \<Rightarrow> func \<Rightarrow> Cron
    \<Rightarrow> 'e called \<times> Cron" where
  "AddFunc Parse spec name cmd c = AddJob Parse spec name (FuncJob cmd) c"

definition UpdateFunc :: "(string \<Rightarrow> 'e + Schedule) \<Rightarrow> string \<Rightarrow> string \<Rightarrow> func \<Rightarrow> Cron
    \<Rightarrow> 'e called \<times> Cron" where
  "UpdateFunc Parse spec name cmd c = UpdateJob Parse spec name (FuncJob cmd) c"

text \<open>\<^verbatim>\<open>RemoveJobOrFunc\<close>, for a caller that gets the mutex.\<close>

definition RemoveJobOrFunc :: "string \<Rightarrow> Cron \<Rightarrow> Cron" where
  "RemoveJobOrFunc name c = c\<lparr>entries := AList.delete name (entries c)\<rparr>"

subsection \<open>Snapshots\<close>

definition mapToSlice :: "(string \<times> nat) list \<Rightarrow> nat list" where
  "mapToSlice entriesMap = map snd entriesMap"

text \<open>
  \<^verbatim>\<open>entrySnapshot\<close>, under its read lock, allocates one new object for each registry entry
  and returns the new pointers. The \<^verbatim>\<open>Name\<close> of a new object is left at the empty string.
\<close>

definition entrySnapshot :: "Cron \<Rightarrow> nat list \<times> Cron" where
  "entrySnapshot c =
     ([length (heap c) ..< length (heap c) + length (entries c)],
      c\<lparr>heap := heap c @
           map (\<lambda>e. \<lparr>Schedule = Schedule (heap c ! e), Next = Next (heap c ! e),
                     Prev = Prev (heap c ! e), Name = [], Job = Job (heap c ! e)\<rparr>)
               (mapToSlice (entries c))\<rparr>)"

text \<open>
  \<^verbatim>\<open>Entries\<close>, up to its return or to its first channel operation: on a scheduler that
  is not running it returns \<^verbatim>\<open>entrySnapshot\<close>'s slice; on a running one the caller blocks
  sending \<^verbatim>\<open>nil\<close> on \<^verbatim>\<open>snapshot\<close>.

  The request and the answer travel on the same unbuffered channel, so four meetings
  are possible. \<open>snapshot_request\<close>: a caller's request is received by the loop in its
  \<^verbatim>\<open>select\<close>; the caller goes on to wait for the answer. \<open>snapshot_make\<close>: the loop calls
  \<^verbatim>\<open>entrySnapshot\<close>. \<open>snapshot_answer\<close>: the loop's send is received by a caller waiting
  for the answer, who returns it; the loop is back in the same \<^verbatim>\<open>select\<close>.
  \<open>snapshot_cross\<close>: one caller's request is received by another caller waiting for
  the answer, who returns that \<^verbatim>\<open>nil\<close>; the first caller goes on to wait for the answer.
\<close>

definition Entries :: "Cron \<Rightarrow> Cron" where
  "Entries c =
     (if running c then c\<lparr>blocked := blocked c @ [SnapReq]\<rparr>
      else (case entrySnapshot c of
              (x, c') \<Rightarrow> c'\<lparr>answers := answers c' @ [Some x]\<rparr>))"

definition snapshot_request :: "Cron \<Rightarrow> Cron" where
  "snapshot_request c =
     (case loop c of
        Some (Select es now d) \<Rightarrow>
          (if SnapReq \<in> set (blocked c)
           then c\<lparr>blocked := remove1 SnapReq (blocked c) @ [SnapWait],
                  loop := Some (SnapLock es now d)\<rparr>
           else c)
      | _ \<Rightarrow> c)"

definition snapshot_make :: "Cron \<Rightarrow> Cron" where
  "snapshot_make c =
     (case loop c of
        Some (SnapLock es now d) \<Rightarrow>
          (case entrySnapshot c of
             (x, c') \<Rightarrow> c'\<lparr>loop := Some (SnapSend es now d x)\<rparr>)
      | _ \<Rightarrow> c)"

definition snapshot_answer :: "Cron \<Rightarrow> Cron" where
  "snapshot_answer c =
     (case loop c of
        Some (SnapSend es now d x) \<Rightarrow>
          (if SnapWait \<in> set (blocked c)
           then c\<lparr>blocked := remove1 SnapWait (blocked c),
                  answers := answers c @ [Some x],
                  loop := Some (Select es now d)\<rparr>
           else c)
      | _ \<Rightarrow> c)"

definition snapshot_cross :: "Cron \<Rightarrow> Cron" where
  "snapshot_cross c =
     (if SnapReq \<in> set (blocked c) \<and> SnapWait \<in> set (blocked c)
      then c\<lparr>blocked := remove1 SnapReq (blocked c), answers := answers c @ [None]\<rparr>
      else c)"

subsection \<open>Start and stop\<close>

definition Start :: "Cron \<Rightarrow> Cron" where
  "Start c = (if running c then c else c\<lparr>running := True, loop := Some Entered\<rparr>)"

definition Run :: "Cron \<Rightarrow> Cron" where
  "Run c = (if running c then c else c\<lparr>running := True, loop := Some Entered\<rparr>)"

text \<open>
  \<^verbatim>\<open>Stop\<close> sends on the unbuffered \<^verbatim>\<open>stop\<close> channel, which the loop receives only in its
  \<^verbatim>\<open>select\<close>; the loop then returns. \<open>None\<close> is a caller still blocked in the send.
\<close>

definition Stop :: "Cron \<Rightarrow> Cron option" where
  "Stop c =
     (if \<not> running c then Some c
      else (case loop c of
              Some (Select es now d) \<Rightarrow> Some (c\<lparr>loop := None, running := False\<rparr>)
            | _ \<Rightarrow> None))"

subsection \<open>The job runner\<close>

definition logf :: "string \<Rightarrow> Cron \<Rightarrow> Cron" where
  "logf m c =
     (case ErrorLog c of
        Some l \<Rightarrow> c\<lparr>ErrorLog := Some (l @ [m])\<rparr>
      | None \<Rightarrow> c\<lparr>stdlog := stdlog c @ [m]\<rparr>)"

text \<open>
  A call that panics is \<open>Inl\<close> of the panic value, unwinding towards the caller; a panic
  that leaves a goroutine ends the process. The panic value is given as \<^verbatim>\<open>%v\<close> prints it,
  and \<^verbatim>\<open>recover\<close> returns \<^verbatim>\<open>nil\<close> only when there is no panic (a panic with a \<^verbatim>\<open>nil\<close> value
  reaches it as a runtime error value). \<open>stack\<close> is what \<^verbatim>\<open>runtime.Stack\<close> has to write; the
  buffer holds its first 64 KiB. The body of a job is outside the scheduler: a call of
  \<^verbatim>\<open>Run\<close> that returns leaves the scheduler's state as it was.
\<close>

definition call_Run :: "Job \<Rightarrow> Cron \<Rightarrow> string + Cron" where
  "call_Run j c = (case Job_Run j of Returns \<Rightarrow> Inr c | Panics r \<Rightarrow> Inl r)"

definition panic_report :: "string \<Rightarrow> string \<Rightarrow> string" where
  "panic_report r stack =
     ''cron: panic running job: '' @ r @ [CHR 0x0A] @ take (64 * 1024) stack"

definition runWithRecovery :: "string \<Rightarrow> Job \<Rightarrow> Cron \<Rightarrow> string + Cron" where
  "runWithRecovery stack j c =
     (case call_Run j c of
        Inr c' \<Rightarrow> Inr c'
      | Inl r \<Rightarrow> Inr (logf (panic_report r stack) c))"

subsection \<open>The loop\<close>

text \<open>The first statements of \<^verbatim>\<open>run\<close>: every registry entry gets its first \<^verbatim>\<open>Next\<close>.\<close>

definition seed :: "Time \<Rightarrow> nat \<Rightarrow> Entry list \<Rightarrow> Entry list" where
  "seed now e h = h[e := (h ! e)\<lparr>Next := Schedule (h ! e) now\<rparr>]"

definition run_enter :: "Time \<Rightarrow> Cron \<Rightarrow> Cron" where
  "run_enter now c =
     (case loop c of
        Some Entered \<Rightarrow>
          c\<lparr>heap := fold (seed now) (mapToSlice (entries c)) (heap c),
            loop := Some (Top now)\<rparr>
      | _ \<Rightarrow> c)"

text \<open>The head of the outer loop: the sorted slice and the timer.\<close>

definition timer_for :: "Entry list \<Rightarrow> nat list \<Rightarrow> Time \<Rightarrow> Duration" where
  "timer_for h es now =
     (if length es = 0 \<or> IsZero (Next (h ! (es ! 0))) then 100000 * Hour
      else Sub (Next (h ! (es ! 0))) now)"

definition cycle :: "(Entry list \<Rightarrow> nat list \<Rightarrow> nat list) \<Rightarrow> Cron \<Rightarrow> Cron" where
  "cycle srt c =
     (case loop c of
        Some (Top now) \<Rightarrow>
          (let es = srt (heap c) (mapToSlice (entries c))
           in c\<lparr>loop := Some (Select es now (timer_for (heap c) es now))\<rparr>)
      | _ \<Rightarrow> c)"

text \<open>
  The timer case. The goroutine started by \<^verbatim>\<open>go\<close> is run to its end on the spot; a panic
  leaving it would end the process, which is the \<open>Inl\<close> result.
\<close>

fun scan :: "string \<Rightarrow> Time \<Rightarrow> nat list \<Rightarrow> Cron \<Rightarrow> string + Cron" where
  "scan stack now [] c = Inr c"
| "scan stack now (e # es) c =
     (if After (Next (heap c ! e)) now \<or> IsZero (Next (heap c ! e)) then Inr c
      else (case runWithRecovery stack (Job (heap c ! e))
                   (c\<lparr>spawned := spawned c @ [Job (heap c ! e)]\<rparr>) of
              Inl r \<Rightarrow> Inl r
            | Inr c1 \<Rightarrow>
                scan stack now es
                  (c1\<lparr>heap := (heap c1)[e := (heap c1 ! e)
                         \<lparr>Prev := Next (heap c1 ! e),
                          Next := Schedule (heap c1 ! e) now\<rparr>]\<rparr>)))"

definition timer_fire :: "string \<Rightarrow> Time \<Rightarrow> Cron \<Rightarrow> string + Cron" where
  "timer_fire stack now c =
     (case loop c of
        Some (Select es old d) \<Rightarrow>
          (case scan stack now es c of
             Inl r \<Rightarrow> Inl r
           | Inr c' \<Rightarrow> Inr (c'\<lparr>loop := Some (Top now)\<rparr>))
      | _ \<Rightarrow> Inr c)"

text \<open>
  The \<^verbatim>\<open>add\<close> and \<^verbatim>\<open>update\<close> cases, for a pointer that a caller is sending: first the
  receipt, with which the sender returns (an updater releasing the mutex as it does),
  and the setting of \<^verbatim>\<open>Next\<close>; then, once the loop has the mutex, the store.
\<close>

definition recv_add :: "nat \<Rightarrow> Time \<Rightarrow> Cron \<Rightarrow> Cron" where
  "recv_add newEntry now c =
     (case loop c of
        Some (Select es old d) \<Rightarrow>
          (if AddMsg newEntry \<in> set (blocked c)
           then c\<lparr>heap := seed now newEntry (heap c),
                  blocked := remove1 (AddMsg newEntry) (blocked c),
                  loop := Some (AddLock newEntry now)\<rparr>
           else c)
      | _ \<Rightarrow> c)"

definition add_store :: "Cron \<Rightarrow> Cron" where
  "add_store c =
     (case loop c of
        Some (AddLock newEntry now) \<Rightarrow>
          (let name = Name (heap c ! newEntry)
           in c\<lparr>entries := (if map_of (entries c) name = None
                              then AList.update name newEntry (entries c)
                              else entries c),
                  loop := Some (Top now)\<rparr>)
      | _ \<Rightarrow> c)"

definition recv_update :: "nat \<Rightarrow> Time \<Rightarrow> Cron \<Rightarrow> Cron" where
  "recv_update newEntry now c =
     (case loop c of
        Some (Select es old d) \<Rightarrow>
          (if UpdateMsg newEntry \<in> set (blocked c)
           then c\<lparr>heap := seed now newEntry (heap c),
                  blocked := remove1 (UpdateMsg newEntry) (blocked c),
                  mu := False,
                  loop := Some (UpdateLock newEntry now)\<rparr>
           else c)
      | _ \<Rightarrow> c)"

definition update_store :: "Cron \<Rightarrow> Cron" where
  "update_store c =
     (case loop c of
        Some (UpdateLock newEntry now) \<Rightarrow>
          c\<lparr>entries := AList.update (Name (heap c ! newEntry)) newEntry (entries c),
            loop := Some (Top now)\<rparr>
      | _ \<Rightarrow> c)"

text \<open>The registry entry stored under a name, read through its pointer.\<close>

definition entry_of :: "Cron \<Rightarrow> string \<Rightarrow> Entry option" where
  "entry_of c name = map_option (\<lambda>e. heap c ! e) (map_of (entries c) name)"

subsection \<open>Notions used in the statements\<close>

text \<open>
  An entry is due at \<open>now\<close> when the scan does not stop at it; \<open>fired\<close> is the
  bookkeeping the scan does on a dispatched entry.
\<close>

definition due :: "Time \<Rightarrow> Entry list \<Rightarrow> nat \<Rightarrow> bool" where
  "due now h e = (\<not> (After (Next (h ! e)) now \<or> IsZero (Next (h ! e))))"

definition fired :: "Time \<Rightarrow> Entry \<Rightarrow> Entry" where
  "fired now x = x\<lparr>Prev := Next x, Next := Schedule x now\<rparr>"

text \<open>
  \<open>quiet c\<close> is \<open>c\<close> with every job replaced by one of the same label that returns,
  and with nothing logged: what is left of a state when job faults and their reports
  are forgotten.
\<close>

fun calm :: "Job \<Rightarrow> Job" where
  "calm (FuncJob f) = FuncJob (fst f, Returns)"

definition quiet :: "Cron \<Rightarrow> Cron" where
  "quiet c = c\<lparr>heap := map (\<lambda>x. x\<lparr>Job := calm (Job x)\<rparr>) (heap c),
              spawned := map calm (spawned c), ErrorLog := None, stdlog := []\<rparr>"

subsection \<open>Runs of the scheduler\<close>

text \<open>
  The steps of the scheduler and of its callers. A step that needs the mutex while
  \<open>mu\<close> is set cannot be taken: the goroutine stands in \<^verbatim>\<open>Lock\<close> or \<^verbatim>\<open>RLock\<close>, and the state
  stays as it is. So does it for a call that cannot go on in the state at hand and for
  a channel operation that finds no partner. The loop's own critical sections are the
  seeding at \<^verbatim>\<open>run\<close>'s entry, the head of the cycle, the two stores and \<^verbatim>\<open>entrySnapshot\<close>;
  the timer case takes no lock.
\<close>

datatype event =
    Ev_Schedule Schedule string Job bool
  | Ev_Remove string
  | Ev_Start
  | Ev_Run
  | Ev_Stop
  | Ev_Entries
  | Ev_enter Time
  | Ev_cycle
  | Ev_timer string Time
  | Ev_add nat Time
  | Ev_add_store
  | Ev_update nat Time
  | Ev_update_store
  | Ev_snap_request
  | Ev_snap_make
  | Ev_snap_answer
  | Ev_snap_cross

fun step :: "(Entry list \<Rightarrow> nat list \<Rightarrow> nat list) \<Rightarrow> event \<Rightarrow> Cron \<Rightarrow> Cron" where
  "step srt (Ev_Schedule schedule name cmd update) c =
     (if Schedule_waits update c then c else Schedule_c schedule name cmd update c)"
| "step srt (Ev_Remove name) c = (if mu c then c else RemoveJobOrFunc name c)"
| "step srt Ev_Start c = Start c"
| "step srt Ev_Run c = Run c"
| "step srt Ev_Stop c = (case Stop c of Some c' \<Rightarrow> c' | None \<Rightarrow> c)"
| "step srt Ev_Entries c = (if mu c \<and> \<not> running c then c else Entries c)"
| "step srt (Ev_enter now) c = (if mu c then c else run_enter now c)"
| "step srt Ev_cycle c = (if mu c then c else cycle srt c)"
| "step srt (Ev_timer stack now) c = (case timer_fire stack now c of Inr c' \<Rightarrow> c' | Inl r \<Rightarrow> c)"
| "step srt (Ev_add newEntry now) c = recv_add newEntry now c"
| "step srt Ev_add_store c = (if mu c then c else add_store c)"
| "step srt (Ev_update newEntry now) c = recv_update newEntry now c"
| "step srt Ev_update_store c = (if mu c then c else update_store c)"
| "step srt Ev_snap_request c = snapshot_request c"
| "step srt Ev_snap_make c = (if mu c then c else snapshot_make c)"
| "step srt Ev_snap_answer c = snapshot_answer c"
| "step srt Ev_snap_cross c = snapshot_cross c"

text \<open>
  \<open>held\<close> lists the pointers through which the scheduler may still write: those of the
  registry, those of the loop's slice, the one the loop is about to store, and those
  being sent to it.
\<close>

fun ptrs :: "msg \<Rightarrow> nat list" where
  "ptrs (AddMsg e) = [e]"
| "ptrs (UpdateMsg e) = [e]"
| "ptrs SnapReq = []"
| "ptrs SnapWait = []"

fun slice_of :: "loop option \<Rightarrow> nat list" where
  "slice_of (Some (Select es now d)) = es"
| "slice_of (Some (SnapLock es now d)) = es"
| "slice_of (Some (SnapSend es now d x)) = es"
| "slice_of l = []"

fun store_of :: "loop option \<Rightarrow> nat list" where
  "store_of (Some (AddLock e now)) = [e]"
| "store_of (Some (UpdateLock e now)) = [e]"
| "store_of l = []"

definition held :: "Cron \<Rightarrow> nat list" where
  "held c =
     mapToSlice (entries c) @ slice_of (loop c) @ store_of (loop c) @
     concat (map ptrs (blocked c))"

definition inside :: "Cron \<Rightarrow> bool" where
  "inside c = list_all (\<lambda>p. p < length (heap c)) (held c)"

text \<open>
  What one step may do: the heap does not shrink, a pointer held afterwards was held
  before or is newly allocated, and an object that was not held is left as it was.
\<close>

definition touches_held_only :: "Cron \<Rightarrow> Cron \<Rightarrow> bool" where
  "touches_held_only c c' =
     (length (heap c) \<le> length (heap c') \<and>
      (\<forall>p\<in>set (held c'). p \<in> set (held c) \<or> length (heap c) \<le> p \<and> p < length (heap c')) \<and>
      (\<forall>a. a < length (heap c) \<longrightarrow> a \<notin> set (held c) \<longrightarrow> heap c' ! a = heap c ! a))"

text \<open>
  \<open>apart snap c\<close>: the objects at \<open>snap\<close> exist and the scheduler holds none of them.
  \<open>copy_of\<close> is the object that \<^verbatim>\<open>entrySnapshot\<close> makes of an entry.
\<close>

definition apart :: "nat list \<Rightarrow> Cron \<Rightarrow> bool" where
  "apart snap c = list_all (\<lambda>a. a < length (heap c) \<and> a \<notin> set (held c)) snap"

definition copy_of :: "Entry \<Rightarrow> Entry" where
  "copy_of x = \<lparr>Schedule = Schedule x, Next = Next x, Prev = Prev x, Name = [], Job = Job x\<rparr>"

text \<open>
  \<open>sound\<close> collects what holds of every state reached from a new scheduler: the held
  pointers are in the heap, the registry's names are distinct and each is the \<^verbatim>\<open>Name\<close>
  of its entry, the loop's slice is sorted and free of repetitions, and the mutex is
  held across a send by exactly one updater or by none.
\<close>

definition names_ok :: "Cron \<Rightarrow> bool" where
  "names_ok c =
     (distinct (map fst (entries c)) \<and>
      list_all (\<lambda>p. Name (heap c ! snd p) = fst p) (entries c))"

definition slice_ok :: "Cron \<Rightarrow> bool" where
  "slice_ok c =
     (byTime_sorted (heap c) (slice_of (loop c)) \<and> distinct (slice_of (loop c)))"

fun is_update :: "msg \<Rightarrow> bool" where
  "is_update (UpdateMsg e) = True"
| "is_update m = False"

definition lock_ok :: "Cron \<Rightarrow> bool" where
  "lock_ok c = (length (filter is_update (blocked c)) = (if mu c then 1 else 0))"

definition sound :: "Cron \<Rightarrow> bool" where
  "sound c = (inside c \<and> names_ok c \<and> slice_ok c \<and> lock_ok c)"

subsection \<open>Notions about runs\<close>

text \<open>
  \<open>wants_lock\<close>: the loop stands before a \<^verbatim>\<open>Lock\<close> or \<^verbatim>\<open>RLock\<close>. \<open>stuck e c\<close>: an updater
  holds the mutex while it sends \<open>e\<close>, and the loop of the running scheduler stands
  before a lock.
\<close>

fun wants_lock :: "loop option \<Rightarrow> bool" where
  "wants_lock (Some Entered) = True"
| "wants_lock (Some (Top now)) = True"
| "wants_lock (Some (AddLock e now)) = True"
| "wants_lock (Some (UpdateLock e now)) = True"
| "wants_lock (Some (SnapLock es now d)) = True"
| "wants_lock l = False"

definition stuck :: "nat \<Rightarrow> Cron \<Rightarrow> bool" where
  "stuck e c =
     (mu c \<and> running c \<and> wants_lock (loop c) \<and> UpdateMsg e \<in> set (blocked c) \<and>
      e < length (heap c))"


text \<open>\<open>same_binding\<close>: two objects agree in schedule, job and name, the fields that no step
  of the scheduler writes after the allocation.\<close>

definition same_binding :: "Entry \<Rightarrow> Entry \<Rightarrow> bool" where
  "same_binding x y = (Schedule x = Schedule y \<and> Job x = Job y \<and> Name x = Name y)"

subsection \<open>Example data\<close>

definition every :: "int \<Rightarrow> Schedule" where
  "every d = (\<lambda>t. t + d)"

definition ex_Parse :: "string \<Rightarrow> string + Schedule" where
  "ex_Parse spec =
     (if spec = ''@every 1m'' then Inr (every 60)
      else if spec = ''@every 2m'' then Inr (every 120)
      else Inl ''bad spec'')"

definition jobA :: Job where
  "jobA = FuncJob (''A'', Returns)"

definition jobB :: Job where
  "jobB = FuncJob (''B'', Returns)"

definition jobP :: Job where
  "jobP = FuncJob (''P'', Panics ''boom'')"

text \<open>
  One entry \<open>a\<close> registered before the start, the scheduler started at time 0, the loop
  blocked in its \<^verbatim>\<open>select\<close> with a timer of 60.
\<close>

definition ex_waiting :: Cron where
  "ex_waiting =
     cycle sort_byTime (run_enter 0 (Start (Schedule_c (every 60) ''a'' jobA False New)))"

text \<open>
  Two entries registered before the start, \<open>p\<close> with a job that panics and \<open>a\<close> with
  one that returns, both due at 60; the loop waits.
\<close>

definition ex_two :: Cron where
  "ex_two =
     cycle sort_byTime (run_enter 0 (Start
       (Schedule_c (every 60) ''a'' jobA False (Schedule_c (every 60) ''p'' jobP False New))))"


text \<open>
  Three entries, one of them with a schedule that never fires, after the loop has
  entered at time 0.
\<close>

definition never :: Schedule where
  "never = (\<lambda>t. 0)"

definition ex_three :: Cron where
  "ex_three =
     run_enter 0 (Start
       (Schedule_c (every 60) ''a'' jobA False
         (Schedule_c (every 120) ''b'' jobB False
           (Schedule_c never ''z'' jobP False New))))"

text \<open>
  The state \<open>ex_waiting\<close> after its timer fired at 60, with the loop on its way from the
  timer case to the head of the next cycle.
\<close>

definition ex_busy :: Cron where
  "ex_busy = (case timer_fire [] 60 ex_waiting of Inr c \<Rightarrow> c | Inl r \<Rightarrow> New)"


definition ex_stuck :: Cron where
  "ex_stuck = step sort_byTime (Ev_Schedule (every 120) ''a'' jobB True) ex_busy"

section \<open>Properties\<close>

lemmas time_defs = IsZero_def Before_def After_def Sub_def Hour_def

lemmas loop_defs =
  New_def Schedule_c_def Start_def run_enter_def cycle_def mapToSlice_def seed_def
  timer_for_def Less_def

lemmas fire_defs =
  timer_fire_def scan.simps runWithRecovery_def call_Run_def logf_def panic_report_def

lemmas ex_defs = every_def jobA_def jobB_def jobP_def ex_waiting_def ex_two_def

subsection \<open>The scan of the timer case\<close>

lemma runWithRecovery_Inr:
  "runWithRecovery stack j c =
     Inr (case Job_Run j of Returns \<Rightarrow> c | Panics r \<Rightarrow> logf (panic_report r stack) c)"
  by (simp add: runWithRecovery_def call_Run_def split: outcome.splits)

lemma logf_fields [simp]:
  "heap (logf m c) = heap c" "entries (logf m c) = entries c" "running (logf m c) = running c"
  "loop (logf m c) = loop c" "blocked (logf m c) = blocked c" "spawned (logf m c) = spawned c"
  by (simp_all add: logf_def split: option.splits)

lemma runWithRecovery_fields:
  assumes "runWithRecovery stack j c = Inr c'"
  shows "heap c' = heap c" "entries c' = entries c" "running c' = running c"
    "loop c' = loop c" "blocked c' = blocked c" "spawned c' = spawned c"
  using assms by (auto simp: runWithRecovery_Inr split: outcome.splits)

lemma scan_step:
  "scan stack now (e # es) c =
     (if due now (heap c) e then
        (case runWithRecovery stack (Job (heap c ! e))
                   (c\<lparr>spawned := spawned c @ [Job (heap c ! e)]\<rparr>) of
              Inl r \<Rightarrow> Inl r
            | Inr c1 \<Rightarrow>
                scan stack now es (c1\<lparr>heap := (heap c)[e := fired now (heap c ! e)]\<rparr>))
      else Inr c)"
  by (auto simp: due_def fired_def runWithRecovery_Inr split: outcome.splits)

declare scan.simps(2) [simp del]

lemma scan_total: "\<exists>c'. scan stack now es c = Inr c'"
proof (induction es arbitrary: c)
  case Nil
  show ?case by simp
next
  case (Cons e es)
  show ?case
    by (simp only: scan_step runWithRecovery_Inr sum.case Cons.IH split: if_split) simp
qed

lemma scan_frame:
  assumes "scan stack now es c = Inr c'"
  shows "entries c' = entries c \<and> running c' = running c \<and> loop c' = loop c \<and>
         blocked c' = blocked c \<and> length (heap c') = length (heap c)"
  using assms
proof (induction es arbitrary: c)
  case Nil
  then show ?case by simp
next
  case (Cons e es)
  show ?case
  proof (cases "due now (heap c) e")
    case False
    with Cons.prems show ?thesis by (simp add: scan_step)
  next
    case True
    obtain c1 where c1: "runWithRecovery stack (Job (heap c ! e))
                   (c\<lparr>spawned := spawned c @ [Job (heap c ! e)]\<rparr>) = Inr c1"
      by (simp add: runWithRecovery_Inr)
    from Cons.prems True c1
    have "scan stack now es (c1\<lparr>heap := (heap c)[e := fired now (heap c ! e)]\<rparr>) = Inr c'"
      by (simp add: scan_step)
    from Cons.IH [OF this] runWithRecovery_fields [OF c1]
    show ?thesis by simp
  qed
qed

lemma scan_heap:
  assumes "scan stack now es c = Inr c'" and "distinct es"
  shows "heap c' ! x =
     (if x \<in> set (takeWhile (due now (heap c)) es) \<and> x < length (heap c)
      then fired now (heap c ! x) else heap c ! x)"
  using assms
proof (induction es arbitrary: c)
  case Nil
  then show ?case by simp
next
  case (Cons e es)
  show ?case
  proof (cases "due now (heap c) e")
    case False
    with Cons.prems show ?thesis by (simp add: scan_step)
  next
    case True
    obtain c1 where c1: "runWithRecovery stack (Job (heap c ! e))
                   (c\<lparr>spawned := spawned c @ [Job (heap c ! e)]\<rparr>) = Inr c1"
      by (simp add: runWithRecovery_Inr)
    let ?c2 = "c1\<lparr>heap := (heap c)[e := fired now (heap c ! e)]\<rparr>"
    from Cons.prems True c1
    have sc: "scan stack now es ?c2 = Inr c'"
      by (simp add: scan_step)
    from Cons.prems have ne: "e \<notin> set es" and d: "distinct es" by simp_all
    have same: "(heap c)[e := v] ! x = heap c ! x" if "x \<in> set es" for x v
      using ne that by (cases "x = e") simp_all
    have tw: "takeWhile (due now (heap ?c2)) es = takeWhile (due now (heap c)) es"
      by (rule takeWhile_cong) (simp_all add: due_def same)
    have "x \<in> set (takeWhile (due now (heap c)) es) \<Longrightarrow> x \<noteq> e"
      using ne by (auto dest: set_takeWhileD)
    with Cons.IH [OF sc d] tw True show ?thesis
      by (cases "x = e") (auto simp: list_update_beyond not_less)
  qed
qed

lemma scan_spawned:
  assumes "scan stack now es c = Inr c'" and "distinct es"
  shows "spawned c' = spawned c @ map (\<lambda>e. Job (heap c ! e)) (takeWhile (due now (heap c)) es)"
  using assms
proof (induction es arbitrary: c)
  case Nil
  then show ?case by simp
next
  case (Cons e es)
  show ?case
  proof (cases "due now (heap c) e")
    case False
    with Cons.prems show ?thesis by (simp add: scan_step)
  next
    case True
    obtain c1 where c1: "runWithRecovery stack (Job (heap c ! e))
                   (c\<lparr>spawned := spawned c @ [Job (heap c ! e)]\<rparr>) = Inr c1"
      by (simp add: runWithRecovery_Inr)
    let ?c2 = "c1\<lparr>heap := (heap c)[e := fired now (heap c ! e)]\<rparr>"
    from Cons.prems True c1
    have sc: "scan stack now es ?c2 = Inr c'"
      by (simp add: scan_step)
    from Cons.prems have ne: "e \<notin> set es" and d: "distinct es" by simp_all
    have same: "(heap c)[e := v] ! x = heap c ! x" if "x \<in> set es" for x v
      using ne that by (cases "x = e") simp_all
    have tw: "takeWhile (due now (heap ?c2)) es = takeWhile (due now (heap c)) es"
      by (rule takeWhile_cong) (simp_all add: due_def same)
    have mp: "map (\<lambda>e. Job (heap ?c2 ! e)) (takeWhile (due now (heap c)) es) =
        map (\<lambda>e. Job (heap c ! e)) (takeWhile (due now (heap c)) es)"
      by (intro map_cong) (auto dest: set_takeWhileD simp: same)
    from Cons.IH [OF sc d] tw mp True runWithRecovery_fields [OF c1] show ?thesis
      by simp
  qed
qed

lemma scan_quiet:
  assumes "scan stack now es c = Inr c'" and "\<forall>e\<in>set es. e < length (heap c)"
  shows "scan stack now es (quiet c) = Inr (quiet c')"
  using assms
proof (induction es arbitrary: c)
  case Nil
  then show ?case by simp
next
  case (Cons e es)
  from Cons.prems have e: "e < length (heap c)" by simp
  then have he: "heap (quiet c) ! e = (heap c ! e)\<lparr>Job := calm (Job (heap c ! e))\<rparr>"
    by (simp add: quiet_def)
  then have dq: "due now (heap (quiet c)) e = due now (heap c) e"
    by (simp add: due_def)
  show ?case
  proof (cases "due now (heap c) e")
    case False
    with Cons.prems dq show ?thesis by (simp add: scan_step)
  next
    case True
    obtain c1 where c1: "runWithRecovery stack (Job (heap c ! e))
                   (c\<lparr>spawned := spawned c @ [Job (heap c ! e)]\<rparr>) = Inr c1"
      by (simp add: runWithRecovery_Inr)
    let ?c2 = "c1\<lparr>heap := (heap c)[e := fired now (heap c ! e)]\<rparr>"
    from Cons.prems True c1
    have sc: "scan stack now es ?c2 = Inr c'"
      by (simp add: scan_step)
    have "\<forall>e\<in>set es. e < length (heap ?c2)"
      using Cons.prems by simp
    from Cons.IH [OF sc this] have ih: "scan stack now es (quiet ?c2) = Inr (quiet c')" .
    have jr: "Job_Run (calm j) = Returns" for j
      by (cases j) simp
    have cf: "fired now (x\<lparr>Job := calm (Job x)\<rparr>) = (fired now x)\<lparr>Job := calm (Job (fired now x))\<rparr>"
      for x by (cases x) (simp add: fired_def)
    have q: "(quiet c)\<lparr>spawned := spawned (quiet c) @ [Job (heap (quiet c) ! e)],
              heap := (heap (quiet c))[e := fired now (heap (quiet c) ! e)]\<rparr> = quiet ?c2"
      using c1 unfolding he cf
      by (cases c)
        (auto simp: quiet_def runWithRecovery_Inr map_update logf_def
          split: outcome.splits option.splits)
    show ?thesis
      using True dq ih q jr [of "Job (heap c ! e)"]
      by (simp add: scan_step runWithRecovery_Inr he)
  qed
qed

lemma scan_other:
  assumes "scan stack now es c = Inr c'" and "x \<notin> set es"
  shows "heap c' ! x = heap c ! x"
  using assms
proof (induction es arbitrary: c)
  case Nil
  then show ?case by simp
next
  case (Cons e es)
  show ?case
  proof (cases "due now (heap c) e")
    case False
    with Cons.prems show ?thesis by (simp add: scan_step)
  next
    case True
    obtain c1 where c1: "runWithRecovery stack (Job (heap c ! e))
                   (c\<lparr>spawned := spawned c @ [Job (heap c ! e)]\<rparr>) = Inr c1"
      by (simp add: runWithRecovery_Inr)
    let ?c2 = "c1\<lparr>heap := (heap c)[e := fired now (heap c ! e)]\<rparr>"
    from Cons.prems True c1
    have sc: "scan stack now es ?c2 = Inr c'"
      by (simp add: scan_step)
    from Cons.prems have "x \<notin> set es" and "x \<noteq> e" by auto
    with Cons.IH [OF sc] show ?thesis by simp
  qed
qed

lemma quiet_logf: "quiet (logf m c) = quiet c"
  by (simp add: quiet_def logf_def split: option.splits)

lemma quiet_fields [simp]:
  "entries (quiet c) = entries c" "running (quiet c) = running c" "loop (quiet c) = loop c"
  "blocked (quiet c) = blocked c" "length (heap (quiet c)) = length (heap c)"
  by (simp_all add: quiet_def)

subsection \<open>The life cycle\<close>


subsection \<open>Removal while the loop waits\<close>

text \<open>
  C1 (the code at the failing input): entry \<open>a\<close> is due at 60 and the loop waits for
  it. RemoveJobOrFunc empties the registry; when the timer fires at 60 the loop scans
  the slice it built before waiting, so the job of \<open>a\<close> is handed to the job runner
  all the same.
\<close>

theorem Remove_then_wake_dispatches:
  "loop ex_waiting = Some (Select [0] 0 60) \<and>
   entries (RemoveJobOrFunc ''a'' ex_waiting) = [] \<and>
   map_sum id spawned (timer_fire [] 60 (RemoveJobOrFunc ''a'' ex_waiting)) = Inr [jobA] \<and>
   spawned ex_waiting = []"
  by (simp add: loop_defs fire_defs RemoveJobOrFunc_def time_defs ex_defs)

subsection \<open>Faults of jobs\<close>

text \<open>
  C8: a panic raised by a job's Run is caught in \<^verbatim>\<open>runWithRecovery\<close>: the call ends
  normally, having sent to the configured sink (the error log if one is set, the
  standard logger otherwise) one report made of the panic value and the stack trace,
  and having changed nothing else. A timer fire whose jobs panic therefore ends
  normally too, and apart from the reports it leaves the state that the same fire
  leaves when every job returns: same registry, same \<^verbatim>\<open>Next\<close> and \<^verbatim>\<open>Prev\<close> of every entry,
  same dispatches; the loop is back at the head of its cycle and goes on to the next
  \<^verbatim>\<open>select\<close>.
\<close>

theorem job_panic_contained:
  assumes "loop c = Some (Select es old d)" and "\<forall>e\<in>set es. e < length (heap c)"
  shows "(\<exists>c'. runWithRecovery stack j c = Inr c' \<and> quiet c' = quiet c \<and>
            (Job_Run j = Panics r \<longrightarrow>
               call_Run j c = Inl r \<and> c' = logf (panic_report r stack) c \<and>
               panic_report r stack =
                 ''cron: panic running job: '' @ r @ [CHR 0x0A] @ take 65536 stack \<and>
               (case ErrorLog c of
                  Some l \<Rightarrow> ErrorLog c' = Some (l @ [panic_report r stack]) \<and>
                            stdlog c' = stdlog c
                | None \<Rightarrow> ErrorLog c' = None \<and>
                          stdlog c' = stdlog c @ [panic_report r stack]))) \<and>
         (\<exists>c'. timer_fire stack now c = Inr c' \<and>
               timer_fire stack now (quiet c) = Inr (quiet c') \<and>
               entries c' = entries c \<and> running c' = running c \<and> blocked c' = blocked c \<and>
               loop c' = Some (Top now) \<and>
               (\<exists>es' d'. loop (cycle srt c') = Some (Select es' now d')))"
proof (intro conjI)
  show "\<exists>c'. runWithRecovery stack j c = Inr c' \<and> quiet c' = quiet c \<and>
            (Job_Run j = Panics r \<longrightarrow>
               call_Run j c = Inl r \<and> c' = logf (panic_report r stack) c \<and>
               panic_report r stack =
                 ''cron: panic running job: '' @ r @ [CHR 0x0A] @ take 65536 stack \<and>
               (case ErrorLog c of
                  Some l \<Rightarrow> ErrorLog c' = Some (l @ [panic_report r stack]) \<and>
                            stdlog c' = stdlog c
                | None \<Rightarrow> ErrorLog c' = None \<and>
                          stdlog c' = stdlog c @ [panic_report r stack]))"
  proof (cases "Job_Run j = Panics r")
    case False
    have "\<exists>c'. runWithRecovery stack j c = Inr c' \<and> quiet c' = quiet c"
      by (cases "Job_Run j") (simp_all add: runWithRecovery_Inr quiet_logf)
    with False show ?thesis by blast
  next
    case True
    let ?m = "panic_report r stack"
    have A: "runWithRecovery stack j c = Inr (logf ?m c)"
      using True by (simp add: runWithRecovery_Inr)
    have B: "quiet (logf ?m c) = quiet c"
      by (rule quiet_logf)
    have C: "call_Run j c = Inl r"
      using True by (simp add: call_Run_def)
    have D: "?m = ''cron: panic running job: '' @ r @ [CHR 0x0A] @ take 65536 stack"
      by (simp add: panic_report_def)
    have E: "case ErrorLog c of
            Some l \<Rightarrow> ErrorLog (logf ?m c) = Some (l @ [?m]) \<and> stdlog (logf ?m c) = stdlog c
          | None \<Rightarrow> ErrorLog (logf ?m c) = None \<and> stdlog (logf ?m c) = stdlog c @ [?m]"
      by (simp add: logf_def split: option.splits)
    from A B C D E show ?thesis by blast
  qed
next
  obtain c1 where c1: "scan stack now es c = Inr c1"
    using scan_total by blast
  from scan_quiet [OF c1 assms(2)] have q: "scan stack now es (quiet c) = Inr (quiet c1)" .
  have ql: "quiet (c1\<lparr>loop := Some (Top now)\<rparr>) = (quiet c1)\<lparr>loop := Some (Top now)\<rparr>"
    by (simp add: quiet_def)
  let ?c' = "c1\<lparr>loop := Some (Top now)\<rparr>"
  have "timer_fire stack now c = Inr ?c'"
    using assms(1) c1 by (simp add: timer_fire_def)
  moreover have "timer_fire stack now (quiet c) = Inr (quiet ?c')"
    using assms(1) q ql by (simp add: timer_fire_def)
  moreover have "entries ?c' = entries c \<and> running ?c' = running c \<and> blocked ?c' = blocked c"
    using scan_frame [OF c1] by simp
  moreover have "loop ?c' = Some (Top now)" by simp
  moreover have "\<exists>es' d'. loop (cycle srt ?c') = Some (Select es' now d')"
    by (simp add: cycle_def Let_def)
  ultimately show "\<exists>c'. timer_fire stack now c = Inr c' \<and>
               timer_fire stack now (quiet c) = Inr (quiet c') \<and>
               entries c' = entries c \<and> running c' = running c \<and> blocked c' = blocked c \<and>
               loop c' = Some (Top now) \<and>
               (\<exists>es' d'. loop (cycle srt c') = Some (Select es' now d'))"
    by blast
qed

theorem job_panic_contained_witness:
  "loop ex_two = Some (Select [0, 1] 0 60) \<and> length (heap ex_two) = 2 \<and>
   Job_Run jobP = Panics ''boom'' \<and> call_Run jobP ex_two = Inl ''boom'' \<and>
   runWithRecovery ''trace'' jobP ex_two = Inr (logf (panic_report ''boom'' ''trace'') ex_two) \<and>
   (\<exists>c'. timer_fire ''trace'' 60 ex_two = Inr c' \<and>
         timer_fire ''trace'' 60 (quiet ex_two) = Inr (quiet c') \<and>
         spawned c' = [jobP, jobA] \<and> stdlog c' = [panic_report ''boom'' ''trace''] \<and>
         map Next (heap c') = [120, 120] \<and> map Prev (heap c') = [60, 60])"
proof -
  have l: "loop ex_two = Some (Select [0, 1] 0 60)"
    by (simp add: loop_defs fire_defs time_defs ex_defs)
  have b: "\<forall>e\<in>set [0, 1]. e < length (heap ex_two)"
    by (simp add: loop_defs fire_defs time_defs ex_defs)
  have p: "Job_Run jobP = Panics ''boom''"
    by (simp add: jobP_def)
  have t: "timer_fire ''trace'' 60 ex_two =
      Inr (ex_two\<lparr>loop := Some (Top 60), spawned := [jobP, jobA],
             stdlog := [panic_report ''boom'' ''trace''],
             heap := [\<lparr>Schedule = every 60, Next = 120, Prev = 60, Name = ''p'', Job = jobP\<rparr>,
                      \<lparr>Schedule = every 60, Next = 120, Prev = 60, Name = ''a'', Job = jobA\<rparr>]\<rparr>)"
    by (simp add: loop_defs fire_defs time_defs ex_defs)
  have n: "length (heap ex_two) = 2"
    by (simp add: loop_defs fire_defs time_defs ex_defs)
  from job_panic_contained [OF l b, of "''trace''" jobP "''boom''" 60 sort_byTime] p t
  show ?thesis
    using l n by auto
qed

subsection \<open>The order of the loop's slice\<close>

lemma Less_asym: "Less h a b \<Longrightarrow> \<not> Less h b a"
  by (auto simp: Less_def Before_def split: if_splits)

lemma Less_negtrans: "Less h x a \<Longrightarrow> Less h x b \<or> Less h b a"
  by (auto simp: Less_def Before_def split: if_splits)

lemma mset_insert_byTime: "mset (insert_byTime h a s) = add_mset a (mset s)"
  by (induction s) simp_all

lemma mset_sort_byTime: "mset (sort_byTime h s) = mset s"
  by (induction s) (simp_all add: mset_insert_byTime)

lemma set_insert_byTime: "set (insert_byTime h a s) = insert a (set s)"
  using mset_insert_byTime [of h a s] by (metis set_mset_add_mset_insert set_mset_mset)

lemma sorted_insert_byTime:
  "byTime_sorted h s \<Longrightarrow> byTime_sorted h (insert_byTime h a s)"
proof (induction s)
  case Nil
  then show ?case by (simp add: byTime_sorted_def)
next
  case (Cons b s)
  then show ?case
    using Less_asym [of h b a] Less_negtrans [of h _ a b]
    by (auto simp: byTime_sorted_def set_insert_byTime)
qed

lemma sorted_sort_byTime: "byTime_sorted h (sort_byTime h s)"
proof (induction s)
  case Nil
  show ?case by (simp add: byTime_sorted_def)
next
  case (Cons a s)
  then show ?case by (simp add: sorted_insert_byTime)
qed

lemma sorter_sort_byTime: "sorter sort_byTime"
  by (simp add: sorter_def mset_sort_byTime sorted_sort_byTime)

lemma sorter_sort_rev: "sorter (\<lambda>h s. sort_byTime h (rev s))"
  by (simp add: sorter_def mset_sort_byTime sorted_sort_byTime)

lemma byTime_sorted_nth:
  assumes "byTime_sorted h s" and "i < j" and "j < length s"
  shows "(IsZero (Next (h ! (s ! i))) \<longrightarrow> IsZero (Next (h ! (s ! j)))) \<and>
         (\<not> IsZero (Next (h ! (s ! j))) \<longrightarrow> Next (h ! (s ! i)) \<le> Next (h ! (s ! j)))"
proof -
  from assms have "\<not> Less h (s ! j) (s ! i)"
    by (simp add: byTime_sorted_def sorted_wrt_iff_nth_less)
  then show ?thesis
    by (auto simp: Less_def Before_def split: if_splits)
qed

text \<open>
  C6: with any \<^verbatim>\<open>sort.Sort\<close> that keeps its contract, the slice the loop holds after the
  head of a cycle is a rearrangement of the registry's pointers in which an entry
  with zero \<^verbatim>\<open>Next\<close> is followed by entries with zero \<^verbatim>\<open>Next\<close> only, and an entry with a
  real \<^verbatim>\<open>Next\<close> is preceded only by entries with a real \<^verbatim>\<open>Next\<close> that is not later. Two
  entries with the same \<^verbatim>\<open>Next\<close> are not \<^verbatim>\<open>Less\<close> than each other, both of their orders are
  sorted, and there are two sorting procedures within the contract that order them
  differently.
\<close>

theorem cycle_sorts_by_Next:
  assumes "sorter srt" and "loop c = Some (Top now)"
  shows "(\<exists>s d. loop (cycle srt c) = Some (Select s now d) \<and>
           mset s = mset (mapToSlice (entries c)) \<and>
           (\<forall>j<length s. \<forall>i<j.
              (IsZero (Next (heap c ! (s ! i))) \<longrightarrow> IsZero (Next (heap c ! (s ! j)))) \<and>
              (\<not> IsZero (Next (heap c ! (s ! j))) \<longrightarrow>
                 Next (heap c ! (s ! i)) \<le> Next (heap c ! (s ! j))))) \<and>
         (Next (h ! a) = Next (h ! b) \<longrightarrow>
            \<not> Less h a b \<and> \<not> Less h b a \<and> byTime_sorted h [a, b] \<and> byTime_sorted h [b, a] \<and>
            sorter sort_byTime \<and> sorter (\<lambda>h s. sort_byTime h (rev s)) \<and>
            sort_byTime h [a, b] = [a, b] \<and> sort_byTime h (rev [a, b]) = [b, a])"
proof (intro conjI impI)
  let ?s = "srt (heap c) (mapToSlice (entries c))"
  from assms(1) have m: "mset ?s = mset (mapToSlice (entries c))"
    and st: "byTime_sorted (heap c) ?s"
    by (simp_all add: sorter_def)
  have "loop (cycle srt c) = Some (Select ?s now (timer_for (heap c) ?s now))"
    using assms(2) by (simp add: cycle_def Let_def)
  with m byTime_sorted_nth [OF st]
  show "\<exists>s d. loop (cycle srt c) = Some (Select s now d) \<and>
           mset s = mset (mapToSlice (entries c)) \<and>
           (\<forall>j<length s. \<forall>i<j.
              (IsZero (Next (heap c ! (s ! i))) \<longrightarrow> IsZero (Next (heap c ! (s ! j)))) \<and>
              (\<not> IsZero (Next (heap c ! (s ! j))) \<longrightarrow>
                 Next (heap c ! (s ! i)) \<le> Next (heap c ! (s ! j))))"
    by blast
next
  assume eq: "Next (h ! a) = Next (h ! b)"
  then show ab: "\<not> Less h a b" and ba: "\<not> Less h b a"
    by (simp_all add: Less_def Before_def)
  then show "byTime_sorted h [a, b]" and "byTime_sorted h [b, a]"
    by (simp_all add: byTime_sorted_def)
  show "sorter sort_byTime" by (rule sorter_sort_byTime)
  show "sorter (\<lambda>h s. sort_byTime h (rev s))" by (rule sorter_sort_rev)
  from ab ba show "sort_byTime h [a, b] = [a, b]" and "sort_byTime h (rev [a, b]) = [b, a]"
    by simp_all
qed

theorem cycle_sorts_by_Next_witness:
  "sorter sort_byTime \<and> loop ex_three = Some (Top 0) \<and>
   (\<exists>s d. loop (cycle sort_byTime ex_three) = Some (Select s 0 d) \<and>
           mset s = mset (mapToSlice (entries ex_three)) \<and>
           (\<forall>j<length s. \<forall>i<j.
              (IsZero (Next (heap ex_three ! (s ! i))) \<longrightarrow>
                 IsZero (Next (heap ex_three ! (s ! j)))) \<and>
              (\<not> IsZero (Next (heap ex_three ! (s ! j))) \<longrightarrow>
                 Next (heap ex_three ! (s ! i)) \<le> Next (heap ex_three ! (s ! j))))) \<and>
   loop (cycle sort_byTime ex_three) = Some (Select [2, 1, 0] 0 60) \<and>
   map (\<lambda>e. Next (heap ex_three ! e)) [2, 1, 0] = [60, 120, 0] \<and>
   Next (heap ex_two ! 0) = Next (heap ex_two ! 1) \<and>
   sort_byTime (heap ex_two) [0, 1] = [0, 1] \<and>
   sort_byTime (heap ex_two) (rev [0, 1]) = [1, 0]"
proof -
  have h1: "sorter sort_byTime"
    by (rule sorter_sort_byTime)
  have h2: "loop ex_three = Some (Top 0)"
    by (simp add: ex_three_def never_def loop_defs time_defs ex_defs)
  have h3: "loop (cycle sort_byTime ex_three) = Some (Select [2, 1, 0] 0 60)"
    by (simp add: ex_three_def never_def loop_defs time_defs ex_defs)
  have h4: "map (\<lambda>e. Next (heap ex_three ! e)) [2, 1, 0] = [60, 120, 0]"
    by (simp add: ex_three_def never_def loop_defs time_defs ex_defs)
  have h5: "Next (heap ex_two ! 0) = Next (heap ex_two ! 1)"
    by (simp add: loop_defs time_defs ex_defs)
  from cycle_sorts_by_Next [OF h1 h2, of "heap ex_two" 0 1] h1 h2 h3 h4 h5
  show ?thesis by blast
qed

subsection \<open>The timer case\<close>

lemma filter_takeWhile_sorted:
  assumes "sorted_wrt R xs" and "\<And>x y. R x y \<Longrightarrow> P y \<Longrightarrow> P x"
  shows "filter P xs = takeWhile P xs"
  using assms(1)
proof (induction xs)
  case Nil
  show ?case by simp
next
  case (Cons x xs)
  show ?case
  proof (cases "P x")
    case True
    with Cons show ?thesis by simp
  next
    case False
    have "\<not> P y" if "y \<in> set xs" for y
      using Cons.prems that assms(2) [of x y] False by auto
    then have "filter P xs = []"
      by (simp add: filter_empty_conv)
    with False show ?thesis by simp
  qed
qed

lemma due_downward: "\<not> Less h y x \<Longrightarrow> due now h y \<Longrightarrow> due now h x"
  by (auto simp: Less_def due_def time_defs split: if_splits)

lemma due_iff: "due now h e \<longleftrightarrow> Next (h ! e) \<noteq> 0 \<and> Next (h ! e) \<le> now"
  by (auto simp: due_def time_defs)

text \<open>
  C2: when the timer fires at \<open>now\<close> while the loop waits with a slice that is sorted,
  free of repetitions and within the heap, the fire ends normally with \<open>now\<close> as the
  loop's new time; the jobs dispatched are, in the slice's order and once each, those
  of the entries that are due (\<^verbatim>\<open>Next\<close> not zero and not after \<open>now\<close>); every such entry
  gets its old \<^verbatim>\<open>Next\<close> as \<^verbatim>\<open>Prev\<close> and \<^verbatim>\<open>Schedule.Next(now)\<close> as \<^verbatim>\<open>Next\<close>, every other object
  is left as it was; and the due entries are exactly the slice's longest prefix of due
  entries, that is, the scan stops at the first entry that is not due.
\<close>

theorem timer_fire_dispatches_due:
  assumes "loop c = Some (Select es old d)" and "byTime_sorted (heap c) es"
    and "distinct es" and "\<forall>e\<in>set es. e < length (heap c)"
  shows "\<exists>c'. timer_fire stack now c = Inr c' \<and> loop c' = Some (Top now) \<and>
     spawned c' = spawned c @ map (\<lambda>e. Job (heap c ! e)) (filter (due now (heap c)) es) \<and>
     distinct (filter (due now (heap c)) es) \<and>
     (\<forall>e. due now (heap c) e \<longleftrightarrow> Next (heap c ! e) \<noteq> 0 \<and> Next (heap c ! e) \<le> now) \<and>
     (\<forall>e. heap c' ! e =
        (if e \<in> set es \<and> due now (heap c) e
         then (heap c ! e)\<lparr>Prev := Next (heap c ! e), Next := Schedule (heap c ! e) now\<rparr>
         else heap c ! e)) \<and>
     filter (due now (heap c)) es = takeWhile (due now (heap c)) es \<and>
     length (heap c') = length (heap c) \<and> entries c' = entries c"
proof -
  obtain c1 where c1: "scan stack now es c = Inr c1"
    using scan_total by blast
  let ?c' = "c1\<lparr>loop := Some (Top now)\<rparr>"
  have tf: "timer_fire stack now c = Inr ?c'"
    using assms(1) c1 by (simp add: timer_fire_def)
  have ft: "filter (due now (heap c)) es = takeWhile (due now (heap c)) es"
    using assms(2) unfolding byTime_sorted_def
    by (rule filter_takeWhile_sorted) (rule due_downward)
  have sp: "spawned ?c' =
      spawned c @ map (\<lambda>e. Job (heap c ! e)) (filter (due now (heap c)) es)"
    using scan_spawned [OF c1 assms(3)] by (simp add: ft)
  have hp: "heap ?c' ! e =
        (if e \<in> set es \<and> due now (heap c) e
         then (heap c ! e)\<lparr>Prev := Next (heap c ! e), Next := Schedule (heap c ! e) now\<rparr>
         else heap c ! e)" for e
  proof -
    have "e \<in> set (takeWhile (due now (heap c)) es) \<longleftrightarrow> e \<in> set es \<and> due now (heap c) e"
      unfolding ft [symmetric] by simp
    with scan_heap [OF c1 assms(3), of e] assms(4) show ?thesis
      by (auto simp: fired_def)
  qed
  have fr: "length (heap ?c') = length (heap c) \<and> entries ?c' = entries c"
    using scan_frame [OF c1] by simp
  have "distinct (filter (due now (heap c)) es)"
    using assms(3) by simp
  with tf sp hp ft fr due_iff show ?thesis
    by (intro exI [of _ ?c']) simp
qed

theorem timer_fire_dispatches_due_witness:
  "loop ex_two = Some (Select [0, 1] 0 60) \<and> byTime_sorted (heap ex_two) [0, 1] \<and>
   distinct [0, 1 :: nat] \<and> length (heap ex_two) = 2 \<and>
   filter (due 60 (heap ex_two)) [0, 1] = [0, 1] \<and>
   (\<exists>c'. timer_fire [] 60 ex_two = Inr c' \<and> loop c' = Some (Top 60) \<and>
      spawned c' = spawned ex_two @ map (\<lambda>e. Job (heap ex_two ! e)) [0, 1] \<and>
      (\<forall>e. heap c' ! e =
        (if e \<in> set [0, 1] \<and> due 60 (heap ex_two) e
         then (heap ex_two ! e)\<lparr>Prev := Next (heap ex_two ! e),
                                 Next := Schedule (heap ex_two ! e) 60\<rparr>
         else heap ex_two ! e)))"
proof -
  have h1: "loop ex_two = Some (Select [0, 1] 0 60)"
    by (simp add: loop_defs fire_defs time_defs ex_defs)
  have h2: "byTime_sorted (heap ex_two) [0, 1]"
    by (simp add: byTime_sorted_def loop_defs fire_defs time_defs ex_defs)
  have h3: "distinct [0, 1 :: nat]"
    by simp
  have h4: "\<forall>e\<in>set [0, 1]. e < length (heap ex_two)"
    by (simp add: loop_defs fire_defs time_defs ex_defs)
  have h5: "filter (due 60 (heap ex_two)) [0, 1] = [0, 1]"
    by (simp add: due_def loop_defs fire_defs time_defs ex_defs)
  have h6: "length (heap ex_two) = 2"
    by (simp add: loop_defs fire_defs time_defs ex_defs)
  from timer_fire_dispatches_due [OF h1 h2 h3 h4, of "[]" 60] h1 h2 h3 h5 h6
  show ?thesis by metis
qed

subsection \<open>What a step can reach\<close>

lemma fold_seed_length [simp]: "length (fold (seed now) es h) = length h"
  by (induction es arbitrary: h) (simp_all add: seed_def)

lemma fold_seed_other: "a \<notin> set es \<Longrightarrow> fold (seed now) es h ! a = h ! a"
  by (induction es arbitrary: h) (auto simp: seed_def)

lemma set_delete_snd: "set (map snd (AList.delete k al)) \<subseteq> set (map snd al)"
  by (induction al) auto

lemma set_update_snd: "set (map snd (AList.update k v al)) \<subseteq> insert v (set (map snd al))"
  by (induction al) auto

lemma sorter_set: "sorter srt \<Longrightarrow> set (srt h s) = set s"
  unfolding sorter_def by (metis set_mset_mset)

lemma ptrs_remove1: "set (concat (map ptrs (remove1 m ms))) \<subseteq> set (concat (map ptrs ms))"
  using set_remove1_subset [of m ms] by auto

lemma ptrs_member: "m \<in> set ms \<Longrightarrow> set (ptrs m) \<subseteq> set (concat (map ptrs ms))"
  by auto

lemma touches_refl: "touches_held_only c c"
  by (simp add: touches_held_only_def)

lemma touches_same:
  assumes "length (heap c') = length (heap c)" and "set (held c') \<subseteq> set (held c)"
    and "\<And>a. a \<notin> set (held c) \<Longrightarrow> heap c' ! a = heap c ! a"
  shows "touches_held_only c c'"
  using assms by (auto simp: touches_held_only_def)

lemma touches_Schedule: "touches_held_only c (Schedule_c s n j u c)"
  using set_update_snd [of n "length (heap c)" "entries c"]
  by (auto simp: touches_held_only_def Schedule_c_def Let_def held_def mapToSlice_def nth_append)

lemma touches_Remove: "touches_held_only c (RemoveJobOrFunc n c)"
  using set_delete_snd [of n "entries c"]
  by (auto simp: touches_held_only_def RemoveJobOrFunc_def held_def mapToSlice_def)

lemma touches_Start: "touches_held_only c (Start c)"
  by (auto simp: touches_held_only_def Start_def held_def)

lemma touches_Run: "touches_held_only c (Run c)"
  by (auto simp: touches_held_only_def Run_def held_def)

lemma touches_Stop: "touches_held_only c (case Stop c of Some c' \<Rightarrow> c' | None \<Rightarrow> c)"
  by (auto simp: touches_held_only_def Stop_def held_def split: option.splits loop.splits)

lemma entrySnapshot_frame:
  assumes "entrySnapshot c = (x, c')"
  shows "heap c' = heap c @ map (\<lambda>e. copy_of (heap c ! e)) (mapToSlice (entries c))"
    and "entries c' = entries c" and "loop c' = loop c" and "blocked c' = blocked c"
    and "running c' = running c" and "mu c' = mu c" and "answers c' = answers c"
    and "x = [length (heap c) ..< length (heap c) + length (entries c)]"
  using assms by (auto simp: entrySnapshot_def copy_of_def)

lemma touches_Entries: "touches_held_only c (Entries c)"
proof (cases "running c")
  case True
  then show ?thesis
    by (auto simp: Entries_def touches_held_only_def held_def)
next
  case False
  obtain x c' where e: "entrySnapshot c = (x, c')"
    by (cases "entrySnapshot c")
  show ?thesis
    using False entrySnapshot_frame [OF e]
    by (auto simp: Entries_def e touches_held_only_def held_def nth_append)
qed

lemma touches_enter: "touches_held_only c (run_enter now c)"
  by (auto simp: touches_held_only_def run_enter_def held_def fold_seed_other
      split: option.splits loop.splits)

lemma touches_cycle: "sorter srt \<Longrightarrow> touches_held_only c (cycle srt c)"
  by (auto simp: touches_held_only_def cycle_def held_def sorter_set Let_def
      split: option.splits loop.splits)

lemma touches_timer:
  "touches_held_only c (case timer_fire stack now c of Inr c' \<Rightarrow> c' | Inl r \<Rightarrow> c)"
proof (cases "\<exists>es old d. loop c = Some (Select es old d)")
  case False
  then have "timer_fire stack now c = Inr c"
    by (auto simp: timer_fire_def split: option.splits loop.splits)
  then show ?thesis by (simp add: touches_refl)
next
  case True
  then obtain es old d where l: "loop c = Some (Select es old d)" by blast
  obtain c1 where c1: "scan stack now es c = Inr c1"
    using scan_total by blast
  have "heap c1 ! a = heap c ! a" if "a \<notin> set (held c)" for a
    using scan_other [OF c1, of a] that l by (simp add: held_def)
  then show ?thesis
    using scan_frame [OF c1] l c1
    by (auto simp: timer_fire_def touches_held_only_def held_def)
qed

lemma touches_recv:
  assumes "m \<in> set (blocked c)" and "ptrs m = [e]"
    and "heap c' = seed now e (heap c)" and "entries c' = entries c"
    and "slice_of (loop c') = []" and "store_of (loop c') = [e]"
    and "blocked c' = remove1 m (blocked c)"
  shows "touches_held_only c c'"
proof (rule touches_same)
  have e: "e \<in> set (held c)"
    using ptrs_member [OF assms(1)] assms(2) by (simp add: held_def)
  show "length (heap c') = length (heap c)"
    by (simp add: assms(3) seed_def)
  show "set (held c') \<subseteq> set (held c)"
    using e ptrs_remove1 [of m "blocked c"]
    by (auto simp: held_def assms(4) assms(5) assms(6) assms(7))
  show "heap c' ! a = heap c ! a" if "a \<notin> set (held c)" for a
  proof -
    from that e have "a \<noteq> e" by auto
    then show ?thesis by (simp add: assms(3) seed_def)
  qed
qed

lemma touches_add: "touches_held_only c (recv_add e now c)"
proof (cases "\<exists>es old d. loop c = Some (Select es old d) \<and> AddMsg e \<in> set (blocked c)")
  case False
  then have "recv_add e now c = c"
    by (auto simp: recv_add_def split: option.splits loop.splits)
  then show ?thesis by (simp add: touches_refl)
next
  case True
  then obtain es old d where l: "loop c = Some (Select es old d)"
    and b: "AddMsg e \<in> set (blocked c)" by blast
  show ?thesis
    by (rule touches_recv [OF b, of e _ now]) (simp_all add: recv_add_def l b)
qed

lemma touches_update: "touches_held_only c (recv_update e now c)"
proof (cases "\<exists>es old d. loop c = Some (Select es old d) \<and> UpdateMsg e \<in> set (blocked c)")
  case False
  then have "recv_update e now c = c"
    by (auto simp: recv_update_def split: option.splits loop.splits)
  then show ?thesis by (simp add: touches_refl)
next
  case True
  then obtain es old d where l: "loop c = Some (Select es old d)"
    and b: "UpdateMsg e \<in> set (blocked c)" by blast
  show ?thesis
    by (rule touches_recv [OF b, of e _ now]) (simp_all add: recv_update_def l b)
qed

lemma touches_add_store: "touches_held_only c (add_store c)"
proof (cases "\<exists>e now. loop c = Some (AddLock e now)")
  case False
  then have "add_store c = c"
    by (auto simp: add_store_def split: option.splits loop.splits)
  then show ?thesis by (simp add: touches_refl)
next
  case True
  then obtain e now where l: "loop c = Some (AddLock e now)" by blast
  show ?thesis
    using set_update_snd [of "Name (heap c ! e)" e "entries c"]
    by (intro touches_same) (auto simp: add_store_def l Let_def held_def mapToSlice_def)
qed

lemma touches_update_store: "touches_held_only c (update_store c)"
proof (cases "\<exists>e now. loop c = Some (UpdateLock e now)")
  case False
  then have "update_store c = c"
    by (auto simp: update_store_def split: option.splits loop.splits)
  then show ?thesis by (simp add: touches_refl)
next
  case True
  then obtain e now where l: "loop c = Some (UpdateLock e now)" by blast
  show ?thesis
    using set_update_snd [of "Name (heap c ! e)" e "entries c"]
    by (intro touches_same) (auto simp: update_store_def l held_def mapToSlice_def)
qed

lemma touches_snapshot_request: "touches_held_only c (snapshot_request c)"
  using ptrs_remove1 [of SnapReq "blocked c"]
  by (intro touches_same)
    (auto simp: snapshot_request_def held_def split: option.splits loop.splits)

lemma touches_snapshot_make: "touches_held_only c (snapshot_make c)"
proof (cases "\<exists>es now d. loop c = Some (SnapLock es now d)")
  case False
  then have "snapshot_make c = c"
    by (auto simp: snapshot_make_def split: option.splits loop.splits)
  then show ?thesis by (simp add: touches_refl)
next
  case True
  then obtain es now d where l: "loop c = Some (SnapLock es now d)" by blast
  obtain x c' where e: "entrySnapshot c = (x, c')"
    by (cases "entrySnapshot c")
  show ?thesis
    using entrySnapshot_frame [OF e]
    by (auto simp: snapshot_make_def l e touches_held_only_def held_def nth_append)
qed

lemma touches_snapshot_answer: "touches_held_only c (snapshot_answer c)"
  using ptrs_remove1 [of SnapWait "blocked c"]
  by (intro touches_same)
    (auto simp: snapshot_answer_def held_def split: option.splits loop.splits)

lemma touches_snapshot_cross: "touches_held_only c (snapshot_cross c)"
  using ptrs_remove1 [of SnapReq "blocked c"]
  by (intro touches_same) (auto simp: snapshot_cross_def held_def)

lemma touches_step: "sorter srt \<Longrightarrow> touches_held_only c (step srt ev c)"
  by (cases ev)
    (simp_all add: touches_refl touches_Schedule touches_Remove touches_Start touches_Run
      touches_Stop touches_Entries touches_enter touches_cycle touches_timer touches_add
      touches_update touches_add_store touches_update_store touches_snapshot_request
      touches_snapshot_make touches_snapshot_answer touches_snapshot_cross)

lemma inside_touch:
  assumes "touches_held_only c c'" and "inside c"
  shows "inside c'"
  using assms unfolding touches_held_only_def inside_def list_all_iff
  by (metis less_le_trans)

lemma apart_touch:
  assumes "touches_held_only c c'" and "apart snap c"
  shows "apart snap c' \<and> map (\<lambda>a. heap c' ! a) snap = map (\<lambda>a. heap c ! a) snap"
proof -
  have "a < length (heap c') \<and> a \<notin> set (held c') \<and> heap c' ! a = heap c ! a"
    if "a \<in> set snap" for a
  proof -
    from that assms(2) have a: "a < length (heap c)" "a \<notin> set (held c)"
      by (auto simp: apart_def list_all_iff)
    with assms(1) show ?thesis
      unfolding touches_held_only_def by (metis leD less_le_trans)
  qed
  then show ?thesis
    by (auto simp: apart_def list_all_iff)
qed

subsection \<open>States reached from a new scheduler\<close>

lemma byTime_sorted_Nil [simp]: "byTime_sorted h []"
  by (simp add: byTime_sorted_def)

lemma names_ok_distinct:
  assumes "names_ok c"
  shows "distinct (mapToSlice (entries c))"
proof -
  have "inj_on snd (set (entries c))"
  proof (rule inj_onI)
    fix p q
    assume p: "p \<in> set (entries c)" and q: "q \<in> set (entries c)" and e: "snd p = snd q"
    from assms p q have "Name (heap c ! snd p) = fst p" "Name (heap c ! snd q) = fst q"
      by (auto simp: names_ok_def list_all_iff)
    with e have "fst p = fst q" by simp
    with e show "p = q" by (simp add: prod_eq_iff)
  qed
  moreover from assms have "distinct (entries c)"
    by (simp add: names_ok_def distinct_map)
  ultimately show ?thesis
    by (simp add: mapToSlice_def distinct_map)
qed

lemma fired_fields [simp]:
  "Name (fired now x) = Name x" "Schedule (fired now x) = Schedule x" "Job (fired now x) = Job x"
  by (simp_all add: fired_def)

lemma same_binding_refl [simp]: "same_binding x x"
  by (simp add: same_binding_def)

lemma scan_binding:
  assumes "scan stack now es c = Inr c'"
  shows "same_binding (heap c' ! x) (heap c ! x)"
  using assms
proof (induction es arbitrary: c)
  case Nil
  then show ?case by simp
next
  case (Cons e es)
  show ?case
  proof (cases "due now (heap c) e")
    case False
    with Cons.prems show ?thesis by (simp add: scan_step)
  next
    case True
    obtain c1 where c1: "runWithRecovery stack (Job (heap c ! e))
                   (c\<lparr>spawned := spawned c @ [Job (heap c ! e)]\<rparr>) = Inr c1"
      by (simp add: runWithRecovery_Inr)
    let ?c2 = "c1\<lparr>heap := (heap c)[e := fired now (heap c ! e)]\<rparr>"
    from Cons.prems True c1
    have sc: "scan stack now es ?c2 = Inr c'"
      by (simp add: scan_step)
    have "same_binding ((heap c)[e := fired now (heap c ! e)] ! x) (heap c ! x)"
      by (cases "x = e"; cases "e < length (heap c)")
        (simp_all add: same_binding_def list_update_beyond)
    with Cons.IH [OF sc] show ?thesis by (simp add: same_binding_def)
  qed
qed

lemma runWithRecovery_mu:
  assumes "runWithRecovery stack j c = Inr c'"
  shows "mu c' = mu c" "answers c' = answers c"
  using assms by (auto simp: runWithRecovery_Inr logf_def split: outcome.splits option.splits)

lemma scan_mu:
  assumes "scan stack now es c = Inr c'"
  shows "mu c' = mu c \<and> answers c' = answers c"
  using assms
proof (induction es arbitrary: c)
  case Nil
  then show ?case by simp
next
  case (Cons e es)
  show ?case
  proof (cases "due now (heap c) e")
    case False
    with Cons.prems show ?thesis by (simp add: scan_step)
  next
    case True
    obtain c1 where c1: "runWithRecovery stack (Job (heap c ! e))
                   (c\<lparr>spawned := spawned c @ [Job (heap c ! e)]\<rparr>) = Inr c1"
      by (simp add: runWithRecovery_Inr)
    from Cons.prems True c1
    have "scan stack now es (c1\<lparr>heap := (heap c)[e := fired now (heap c ! e)]\<rparr>) = Inr c'"
      by (simp add: scan_step)
    from Cons.IH [OF this] runWithRecovery_mu [OF c1]
    show ?thesis by simp
  qed
qed

lemma seed_binding: "same_binding (seed now e h ! x) (h ! x)"
  by (cases "x = e"; cases "e < length h")
    (simp_all add: seed_def same_binding_def list_update_beyond)

lemma fold_seed_binding: "same_binding (fold (seed now) es h ! x) (h ! x)"
proof (induction es arbitrary: h)
  case Nil
  show ?case by simp
next
  case (Cons e es)
  from Cons [of "seed now e h"] seed_binding [of now e h x] show ?case
    by (simp add: same_binding_def)
qed

text \<open>\<^verbatim>\<open>Less\<close> reads nothing but the two objects it is given.\<close>

lemma byTime_sorted_cong:
  assumes "\<And>e. e \<in> set es \<Longrightarrow> h' ! e = h ! e"
  shows "byTime_sorted h' es = byTime_sorted h es"
proof -
  have l: "Less h' b a = Less h b a" if "a \<in> set es" and "b \<in> set es" for a b
    using that by (simp add: Less_def assms)
  have "sorted_wrt (\<lambda>a b. \<not> Less h' b a) es = sorted_wrt (\<lambda>a b. \<not> Less h b a) es"
    using sorted_wrt_mono_rel [of es "\<lambda>a b. \<not> Less h' b a" "\<lambda>a b. \<not> Less h b a"]
      sorted_wrt_mono_rel [of es "\<lambda>a b. \<not> Less h b a" "\<lambda>a b. \<not> Less h' b a"] l
    by blast
  then show ?thesis by (simp add: byTime_sorted_def)
qed

lemma sound_New: "sound New"
  by (simp add: sound_def inside_def names_ok_def slice_ok_def lock_ok_def New_def held_def
      mapToSlice_def)

lemma names_ok_eq: "entries c' = entries c \<Longrightarrow> heap c' = heap c \<Longrightarrow> names_ok c' = names_ok c"
  by (simp add: names_ok_def)

lemma names_ok_append:
  assumes "names_ok c" and "inside c" and "entries c' = entries c" and "heap c' = heap c @ xs"
  shows "names_ok c'"
  using assms
  by (auto simp: names_ok_def inside_def held_def mapToSlice_def list_all_iff nth_append)

lemma names_ok_update:
  assumes "names_ok c" and "Name (heap c ! e) = n"
  shows "names_ok (c\<lparr>entries := AList.update n e (entries c)\<rparr>)"
proof -
  have "set (AList.update n e al) \<subseteq> insert (n, e) (set al)" for al
    by (induction al) auto
  from this [of "entries c"] show ?thesis
    using assms by (auto simp: names_ok_def list_all_iff distinct_update)
qed

lemma names_ok_heap:
  assumes "names_ok c" and "entries c' = entries c"
    and "\<And>x. same_binding (heap c' ! x) (heap c ! x)"
  shows "names_ok c'"
  using assms by (simp add: names_ok_def same_binding_def)

lemma slice_ok_eq:
  "slice_of (loop c') = slice_of (loop c) \<Longrightarrow> heap c' = heap c \<Longrightarrow> slice_ok c' = slice_ok c"
  by (simp add: slice_ok_def)

lemma slice_ok_empty: "slice_of (loop c) = [] \<Longrightarrow> slice_ok c"
  by (simp add: slice_ok_def)

lemma slice_ok_append:
  assumes "slice_ok c" and "inside c" and "slice_of (loop c') = slice_of (loop c)"
    and "heap c' = heap c @ xs"
  shows "slice_ok c'"
proof -
  have "byTime_sorted (heap c @ xs) (slice_of (loop c)) = byTime_sorted (heap c) (slice_of (loop c))"
    using assms(2)
    by (intro byTime_sorted_cong) (auto simp: inside_def held_def list_all_iff nth_append)
  with assms(1) show ?thesis
    by (simp add: slice_ok_def assms(3) assms(4))
qed

lemma names_ok_Schedule:
  assumes "names_ok c" and "inside c"
  shows "names_ok (Schedule_c s n j u c)"
proof -
  let ?c1 = "c\<lparr>heap := heap c @ [\<lparr>Schedule = s, Next = 0, Prev = 0, Name = n, Job = j\<rparr>]\<rparr>"
  have n1: "names_ok ?c1"
    by (rule names_ok_append [OF assms]) simp_all
  have nu: "names_ok (?c1\<lparr>entries := AList.update n (length (heap c)) (entries ?c1)\<rparr>)"
    by (rule names_ok_update [OF n1]) simp
  show ?thesis
    using n1 nu by (auto simp: Schedule_c_def Let_def names_ok_def)
qed

lemma names_ok_Remove:
  assumes "names_ok c"
  shows "names_ok (RemoveJobOrFunc n c)"
proof -
  have "set (AList.delete n al) \<subseteq> set al" for al :: "(string \<times> nat) list"
    by (induction al) auto
  from this [of "entries c"] assms show ?thesis
    by (auto simp: names_ok_def RemoveJobOrFunc_def list_all_iff distinct_delete)
qed

lemma names_ok_Entries:
  assumes "names_ok c" and "inside c"
  shows "names_ok (Entries c)"
proof (cases "running c")
  case True
  with assms(1) show ?thesis by (simp add: Entries_def names_ok_def)
next
  case False
  obtain x c' where e: "entrySnapshot c = (x, c')"
    by (cases "entrySnapshot c")
  have "names_ok c'"
    by (rule names_ok_append [OF assms]) (simp_all add: entrySnapshot_frame [OF e])
  with False show ?thesis
    by (simp add: Entries_def e names_ok_def)
qed

lemma names_ok_snapshot_make:
  assumes "names_ok c" and "inside c"
  shows "names_ok (snapshot_make c)"
proof (cases "\<exists>es now d. loop c = Some (SnapLock es now d)")
  case False
  then have "snapshot_make c = c"
    by (auto simp: snapshot_make_def split: option.splits loop.splits)
  with assms show ?thesis by simp
next
  case True
  then obtain es now d where l: "loop c = Some (SnapLock es now d)" by blast
  obtain x c' where e: "entrySnapshot c = (x, c')"
    by (cases "entrySnapshot c")
  have "names_ok c'"
    by (rule names_ok_append [OF assms]) (simp_all add: entrySnapshot_frame [OF e])
  then show ?thesis
    by (simp add: snapshot_make_def l e names_ok_def)
qed

lemma names_ok_timer:
  assumes "names_ok c"
  shows "names_ok (case timer_fire stack now c of Inr c' \<Rightarrow> c' | Inl r \<Rightarrow> c)"
proof (cases "\<exists>es old d. loop c = Some (Select es old d)")
  case False
  then have "timer_fire stack now c = Inr c"
    by (auto simp: timer_fire_def split: option.splits loop.splits)
  with assms show ?thesis by simp
next
  case True
  then obtain es old d where l: "loop c = Some (Select es old d)" by blast
  obtain c1 where c1: "scan stack now es c = Inr c1"
    using scan_total by blast
  have "names_ok (c1\<lparr>loop := Some (Top now)\<rparr>)"
    by (rule names_ok_heap [OF assms]) (simp_all add: scan_frame [OF c1] scan_binding [OF c1])
  then show ?thesis
    using l c1 by (simp add: timer_fire_def)
qed

lemma names_ok_step:
  assumes "names_ok c" and "inside c"
  shows "names_ok (step srt ev c)"
proof (cases ev)
  case (Ev_Schedule s n j u)
  then show ?thesis using assms by (simp add: names_ok_Schedule)
next
  case (Ev_Remove n)
  then show ?thesis using assms by (simp add: names_ok_Remove)
next
  case Ev_Entries
  then show ?thesis using assms by (simp add: names_ok_Entries)
next
  case (Ev_enter now)
  have "names_ok (run_enter now c)"
    by (rule names_ok_heap [OF assms(1)])
      (simp_all add: run_enter_def fold_seed_binding split: option.splits loop.splits)
  with Ev_enter assms show ?thesis by simp
next
  case (Ev_timer stack now)
  then show ?thesis using assms by (simp add: names_ok_timer)
next
  case (Ev_add e now)
  have "names_ok (recv_add e now c)"
    by (rule names_ok_heap [OF assms(1)])
      (simp_all add: recv_add_def seed_binding split: option.splits loop.splits)
  with Ev_add show ?thesis by simp
next
  case (Ev_update e now)
  have "names_ok (recv_update e now c)"
    by (rule names_ok_heap [OF assms(1)])
      (simp_all add: recv_update_def seed_binding split: option.splits loop.splits)
  with Ev_update show ?thesis by simp
next
  case Ev_add_store
  have "names_ok (add_store c)"
  proof (cases "\<exists>e now. loop c = Some (AddLock e now)")
    case False
    then have "add_store c = c"
      by (auto simp: add_store_def split: option.splits loop.splits)
    with assms show ?thesis by simp
  next
    case True
    then obtain e now where l: "loop c = Some (AddLock e now)" by blast
    from names_ok_update [OF assms(1), of e "Name (heap c ! e)"] assms(1)
    show ?thesis
      by (auto simp: add_store_def l Let_def names_ok_def)
  qed
  with Ev_add_store assms show ?thesis by simp
next
  case Ev_update_store
  have "names_ok (update_store c)"
  proof (cases "\<exists>e now. loop c = Some (UpdateLock e now)")
    case False
    then have "update_store c = c"
      by (auto simp: update_store_def split: option.splits loop.splits)
    with assms show ?thesis by simp
  next
    case True
    then obtain e now where l: "loop c = Some (UpdateLock e now)" by blast
    from names_ok_update [OF assms(1), of e "Name (heap c ! e)"]
    show ?thesis
      by (auto simp: update_store_def l names_ok_def)
  qed
  with Ev_update_store assms show ?thesis by simp
next
  case Ev_snap_make
  then show ?thesis using assms by (simp add: names_ok_snapshot_make)
qed (use assms in \<open>auto simp: names_ok_def Start_def Run_def Stop_def cycle_def Let_def
      snapshot_request_def snapshot_answer_def snapshot_cross_def
      split: option.splits loop.splits\<close>)

lemma slice_ok_step:
  assumes "sorter srt" and "slice_ok c" and "inside c" and "names_ok c"
  shows "slice_ok (step srt ev c)"
proof (cases ev)
  case (Ev_Schedule s n j u)
  have "slice_ok (Schedule_c s n j u c)"
    by (rule slice_ok_append [OF assms(2) assms(3),
          where xs = "[\<lparr>Schedule = s, Next = 0, Prev = 0, Name = n, Job = j\<rparr>]"])
      (simp_all add: Schedule_c_def Let_def)
  with Ev_Schedule assms show ?thesis by simp
next
  case Ev_Entries
  have "slice_ok (Entries c)"
  proof (cases "running c")
    case True
    with assms(2) show ?thesis by (simp add: Entries_def slice_ok_def)
  next
    case False
    obtain x c' where e: "entrySnapshot c = (x, c')"
      by (cases "entrySnapshot c")
    have "slice_ok c'"
      by (rule slice_ok_append [OF assms(2) assms(3)]) (simp_all add: entrySnapshot_frame [OF e])
    with False show ?thesis
      by (simp add: Entries_def e slice_ok_def)
  qed
  with Ev_Entries assms show ?thesis by simp
next
  case Ev_snap_make
  have "slice_ok (snapshot_make c)"
  proof (cases "\<exists>es now d. loop c = Some (SnapLock es now d)")
    case False
    then have "snapshot_make c = c"
      by (auto simp: snapshot_make_def split: option.splits loop.splits)
    with assms show ?thesis by simp
  next
    case True
    then obtain es now d where l: "loop c = Some (SnapLock es now d)" by blast
    obtain x c' where e: "entrySnapshot c = (x, c')"
      by (cases "entrySnapshot c")
    have "slice_ok c'"
      by (rule slice_ok_append [OF assms(2) assms(3)]) (simp_all add: entrySnapshot_frame [OF e])
    then show ?thesis
      using l entrySnapshot_frame(3) [OF e] by (simp add: snapshot_make_def e slice_ok_def)
  qed
  with Ev_snap_make assms show ?thesis by simp
next
  case Ev_cycle
  let ?es = "srt (heap c) (mapToSlice (entries c))"
  from assms(1) have "mset ?es = mset (mapToSlice (entries c))" and st: "byTime_sorted (heap c) ?es"
    by (simp_all add: sorter_def)
  with names_ok_distinct [OF assms(4)] have "distinct ?es"
    by (metis mset_eq_imp_distinct_iff)
  with st assms(2) have "slice_ok (cycle srt c)"
    by (auto simp: cycle_def slice_ok_def Let_def split: option.splits loop.splits)
  with Ev_cycle assms show ?thesis by simp
next
  case (Ev_timer stack now)
  have "slice_ok (case timer_fire stack now c of Inr c' \<Rightarrow> c' | Inl r \<Rightarrow> c)"
  proof (cases "\<exists>es old d. loop c = Some (Select es old d)")
    case False
    then have "timer_fire stack now c = Inr c"
      by (auto simp: timer_fire_def split: option.splits loop.splits)
    with assms show ?thesis by simp
  next
    case True
    then obtain es old d where l: "loop c = Some (Select es old d)" by blast
    obtain c1 where c1: "scan stack now es c = Inr c1"
      using scan_total by blast
    show ?thesis
      using l c1 by (simp add: timer_fire_def slice_ok_empty)
  qed
  with Ev_timer show ?thesis by simp
qed (use assms in \<open>auto simp: slice_ok_def RemoveJobOrFunc_def Start_def Run_def Stop_def
      run_enter_def recv_add_def recv_update_def add_store_def update_store_def Let_def
      snapshot_request_def snapshot_answer_def snapshot_cross_def
      split: option.splits loop.splits\<close>)

lemma filter_update_remove1:
  "\<not> is_update m \<Longrightarrow> filter is_update (remove1 m ms) = filter is_update ms"
  by (induction ms) auto

lemma count_update_remove1:
  "UpdateMsg e \<in> set ms \<Longrightarrow>
   Suc (length (filter is_update (remove1 (UpdateMsg e) ms))) = length (filter is_update ms)"
  by (induction ms) auto

lemma lock_ok_step:
  assumes "lock_ok c"
  shows "lock_ok (step srt ev c)"
proof (cases ev)
  case (Ev_Schedule s n j u)
  with assms show ?thesis
    by (auto simp: lock_ok_def Schedule_c_def Schedule_waits_def Let_def split: if_splits)
next
  case (Ev_update e now)
  show ?thesis
  proof (cases "\<exists>es old d. loop c = Some (Select es old d) \<and> UpdateMsg e \<in> set (blocked c)")
    case False
    then have "recv_update e now c = c"
      by (auto simp: recv_update_def split: option.splits loop.splits)
    with assms Ev_update show ?thesis by simp
  next
    case True
    then obtain es old d where l: "loop c = Some (Select es old d)"
      and b: "UpdateMsg e \<in> set (blocked c)" by blast
    from count_update_remove1 [OF b] assms
    have "length (filter is_update (remove1 (UpdateMsg e) (blocked c))) = 0"
      by (auto simp: lock_ok_def split: if_splits)
    with Ev_update l b show ?thesis
      by (simp add: recv_update_def lock_ok_def)
  qed
next
  case (Ev_timer stack now)
  have "lock_ok (case timer_fire stack now c of Inr c' \<Rightarrow> c' | Inl r \<Rightarrow> c)"
  proof (cases "\<exists>es old d. loop c = Some (Select es old d)")
    case False
    then have "timer_fire stack now c = Inr c"
      by (auto simp: timer_fire_def split: option.splits loop.splits)
    with assms show ?thesis by simp
  next
    case True
    then obtain es old d where l: "loop c = Some (Select es old d)" by blast
    obtain c1 where c1: "scan stack now es c = Inr c1"
      using scan_total by blast
    from scan_frame [OF c1] scan_mu [OF c1] assms show ?thesis
      using l c1 by (simp add: timer_fire_def lock_ok_def)
  qed
  with Ev_timer show ?thesis by simp
next
  case Ev_Entries
  obtain x c' where e: "entrySnapshot c = (x, c')"
    by (cases "entrySnapshot c")
  from assms entrySnapshot_frame [OF e] Ev_Entries show ?thesis
    by (auto simp: lock_ok_def Entries_def e)
next
  case Ev_snap_make
  obtain x c' where e: "entrySnapshot c = (x, c')"
    by (cases "entrySnapshot c")
  from assms entrySnapshot_frame [OF e] Ev_snap_make show ?thesis
    by (auto simp: lock_ok_def snapshot_make_def e split: option.splits loop.splits)
qed (use assms in \<open>auto simp: lock_ok_def RemoveJobOrFunc_def Start_def Run_def Stop_def
      run_enter_def cycle_def recv_add_def add_store_def update_store_def Let_def
      snapshot_request_def snapshot_answer_def snapshot_cross_def filter_update_remove1
      split: option.splits loop.splits\<close>)

lemma sound_step: "sorter srt \<Longrightarrow> sound c \<Longrightarrow> sound (step srt ev c)"
  using inside_touch [OF touches_step, of srt c ev]
  by (simp add: sound_def names_ok_step slice_ok_step lock_ok_step)

lemma sound_run: "sorter srt \<Longrightarrow> sound c \<Longrightarrow> sound (fold (step srt) evs c)"
  by (induction evs arbitrary: c) (simp_all add: sound_step)

text \<open>
  In every state reached from a new scheduler in which the loop waits, its slice is
  sorted, free of repetitions and within the heap.
\<close>

lemma reachable_slice:
  assumes "sorter srt" and "loop (fold (step srt) evs New) = Some (Select es old d)"
  shows "byTime_sorted (heap (fold (step srt) evs New)) es \<and> distinct es \<and>
         (\<forall>e\<in>set es. e < length (heap (fold (step srt) evs New)))"
  using sound_run [OF assms(1) sound_New, of evs] assms(2)
  by (auto simp: sound_def slice_ok_def inside_def held_def list_all_iff)

subsection \<open>An update in flight\<close>








subsection \<open>The example states\<close>

text \<open>The example states are reached from a new scheduler.\<close>

lemma sound_ex_two: "sound ex_two"
proof -
  have e: "ex_two =
      fold (step sort_byTime)
        [Ev_Schedule (every 60) ''p'' jobP False, Ev_Schedule (every 60) ''a'' jobA False,
         Ev_Start, Ev_enter 0, Ev_cycle] New"
    by (simp add: loop_defs ex_defs time_defs Schedule_waits_def)
  show ?thesis unfolding e by (rule sound_run [OF sorter_sort_byTime sound_New])
qed




lemma ex_busy_state:
  "ex_busy =
     \<lparr>entries = [(''a'', 0)],
      heap = [\<lparr>Schedule = every 60, Next = 120, Prev = 60, Name = ''a'', Job = jobA\<rparr>],
      running = True, ErrorLog = None, stdlog = [], loop = Some (Top 60),
      blocked = [], spawned = [jobA], mu = False, answers = []\<rparr>"
  by (simp add: ex_busy_def loop_defs fire_defs ex_defs time_defs due_def fired_def)

subsection \<open>Restart after a stop\<close>




subsection \<open>Update while the loop is busy\<close>

text \<open>
  \<^verbatim>\<open>Schedule\<close> keeps the mutex while it sends on \<^verbatim>\<open>update\<close>. If the loop then stands before
  one of its own locks, neither can go on: no step of the scheduler or of any caller
  changes the loop's position, the registry or the new object, and the message stays
  unreceived.
\<close>

lemma stuck_step:
  assumes "stuck e c"
  shows "stuck e (step srt ev c) \<and> loop (step srt ev c) = loop c \<and>
         entries (step srt ev c) = entries c \<and> heap (step srt ev c) ! e = heap c ! e"
proof -
  from assms have m: "mu c" and r: "running c" and w: "wants_lock (loop c)"
    and b: "UpdateMsg e \<in> set (blocked c)" and e: "e < length (heap c)"
    by (simp_all add: stuck_def)
  from w have ns: "\<And>es now d. loop c \<noteq> Some (Select es now d)"
    and nn: "\<And>es now d x. loop c \<noteq> Some (SnapSend es now d x)"
    by auto
  show ?thesis
  proof (cases ev)
    case (Ev_Schedule s n j u)
    with assms e show ?thesis
      by (auto simp: stuck_def Schedule_waits_def Schedule_c_def Let_def nth_append)
  next
    case Ev_Entries
    with assms show ?thesis
      by (auto simp: stuck_def Entries_def)
  next
    case Ev_Stop
    with assms ns show ?thesis
      by (auto simp: stuck_def Stop_def split: option.splits loop.splits)
  next
    case (Ev_timer stack now)
    from ns have "timer_fire stack now c = Inr c"
      by (auto simp: timer_fire_def split: option.splits loop.splits)
    with Ev_timer assms show ?thesis by simp
  next
    case (Ev_add e' now)
    from ns have "recv_add e' now c = c"
      by (auto simp: recv_add_def split: option.splits loop.splits)
    with Ev_add assms show ?thesis by simp
  next
    case (Ev_update e' now)
    from ns have "recv_update e' now c = c"
      by (auto simp: recv_update_def split: option.splits loop.splits)
    with Ev_update assms show ?thesis by simp
  next
    case Ev_snap_request
    from ns have "snapshot_request c = c"
      by (auto simp: snapshot_request_def split: option.splits loop.splits)
    with Ev_snap_request assms show ?thesis by simp
  next
    case Ev_snap_answer
    from nn have "snapshot_answer c = c"
      by (auto simp: snapshot_answer_def split: option.splits loop.splits)
    with Ev_snap_answer assms show ?thesis by simp
  next
    case Ev_snap_cross
    with assms show ?thesis
      by (auto simp: stuck_def snapshot_cross_def)
  qed (use assms in \<open>simp_all add: stuck_def Start_def Run_def\<close>)
qed

lemma stuck_run:
  assumes "stuck e c"
  shows "stuck e (fold (step srt) evs c) \<and> loop (fold (step srt) evs c) = loop c \<and>
         entries (fold (step srt) evs c) = entries c \<and>
         heap (fold (step srt) evs c) ! e = heap c ! e"
  using assms
proof (induction evs arbitrary: c)
  case Nil
  then show ?case by simp
next
  case (Cons ev evs)
  from stuck_step [OF Cons.prems, of srt ev] Cons.IH [of "step srt ev c"]
  show ?case by simp
qed

lemma ex_stuck_state:
  "ex_stuck =
     \<lparr>entries = [(''a'', 1)],
      heap = [\<lparr>Schedule = every 60, Next = 120, Prev = 60, Name = ''a'', Job = jobA\<rparr>,
              \<lparr>Schedule = every 120, Next = 0, Prev = 0, Name = ''a'', Job = jobB\<rparr>],
      running = True, ErrorLog = None, stdlog = [], loop = Some (Top 60),
      blocked = [UpdateMsg 1], spawned = [jobA], mu = True, answers = []\<rparr>"
  by (simp add: ex_stuck_def ex_busy_state Schedule_waits_def Schedule_c_def)

lemma stuck_ex_stuck: "stuck 1 ex_stuck"
  by (simp add: stuck_def ex_stuck_state)

lemma UpdateJob_ex_busy:
  "UpdateJob ex_Parse ''@every 2m'' ''a'' jobB ex_busy = (Sending (UpdateMsg 1), ex_stuck)"
  by (simp add: UpdateJob_def ex_Parse_def Schedule_call_def Schedule_waits_def ex_stuck_def
      ex_busy_state)

text \<open>
  What does hold of the four registration calls: a parse error is returned as it is,
  with the scheduler untouched; on a scheduler that is not running a call that gets the
  mutex returns \<^verbatim>\<open>nil\<close>; on a running one \<^verbatim>\<open>Schedule\<close> sends the new pointer, and the call
  returns \<^verbatim>\<open>nil\<close> when the loop receives it.
\<close>

lemma parse_error_returned:
  assumes "Parse spec = Inl err"
  shows "AddJob Parse spec name cmd c = (Returned (Some err), c)"
    and "UpdateJob Parse spec name cmd c = (Returned (Some err), c)"
    and "AddFunc Parse spec name f c = (Returned (Some err), c)"
    and "UpdateFunc Parse spec name f c = (Returned (Some err), c)"
  using assms by (simp_all add: AddJob_def UpdateJob_def AddFunc_def UpdateFunc_def)

lemma parse_ok_not_running:
  assumes "Parse spec = Inr schedule" and "\<not> running c" and "\<not> mu c"
  shows "AddJob Parse spec name cmd c = (Returned None, Schedule_c schedule name cmd False c)"
    and "UpdateJob Parse spec name cmd c = (Returned None, Schedule_c schedule name cmd True c)"
    and "Schedule_c schedule name cmd True c = Schedule_c schedule name cmd False c"
    and "map_of (entries c) name = None \<Longrightarrow>
         entry_of (Schedule_c schedule name cmd False c) name =
           Some \<lparr>Schedule = schedule, Next = 0, Prev = 0, Name = name, Job = cmd\<rparr>"
  using assms
  by (simp_all add: AddJob_def UpdateJob_def Schedule_call_def Schedule_waits_def
      Schedule_c_def entry_of_def update_conv')

lemma parse_ok_running:
  assumes "Parse spec = Inr schedule" and "running c"
  shows "AddJob Parse spec name cmd c =
           (Sending (AddMsg (length (heap c))), Schedule_c schedule name cmd False c)"
    and "AddMsg (length (heap c)) \<in> set (blocked (Schedule_c schedule name cmd False c))"
    and "\<not> mu c \<Longrightarrow> UpdateJob Parse spec name cmd c =
           (Sending (UpdateMsg (length (heap c))), Schedule_c schedule name cmd True c)"
    and "mu c \<Longrightarrow> UpdateJob Parse spec name cmd c = (Locking, c)"
  using assms
  by (simp_all add: AddJob_def UpdateJob_def Schedule_call_def Schedule_waits_def
      Schedule_c_def)

text \<open>
  C5 (the code at the failing input). The scheduler runs with \<open>a\<close> registered, its
  timer has fired at 60 and the loop is on its way to the head of the next cycle when
  \<^verbatim>\<open>UpdateJob("@every 2m", "a", jobB)\<close> is called. The registry then shows the new
  schedule and job, but whatever the scheduler and its callers do afterwards, \<^verbatim>\<open>Next\<close>
  of the stored entry stays zero: the loop never gets past its lock, the update is
  never received, the mutex is never released.
\<close>

theorem Update_busy_loop_Next_stays_zero:
  "running ex_busy \<and> \<not> mu ex_busy \<and> loop ex_busy = Some (Top 60) \<and>
   entry_of ex_busy ''a'' =
     Some \<lparr>Schedule = every 60, Next = 120, Prev = 60, Name = ''a'', Job = jobA\<rparr> \<and>
   snd (UpdateJob ex_Parse ''@every 2m'' ''a'' jobB ex_busy) = ex_stuck \<and>
   entry_of (fold (step srt) evs ex_stuck) ''a'' =
     Some \<lparr>Schedule = every 120, Next = 0, Prev = 0, Name = ''a'', Job = jobB\<rparr> \<and>
   loop (fold (step srt) evs ex_stuck) = Some (Top 60) \<and>
   mu (fold (step srt) evs ex_stuck) \<and>
   UpdateMsg 1 \<in> set (blocked (fold (step srt) evs ex_stuck))"
proof -
  from stuck_run [OF stuck_ex_stuck, of srt evs]
  have "stuck 1 (fold (step srt) evs ex_stuck)"
    and "loop (fold (step srt) evs ex_stuck) = Some (Top 60)"
    and "entries (fold (step srt) evs ex_stuck) = [(''a'', 1)]"
    and "heap (fold (step srt) evs ex_stuck) ! 1 =
      \<lparr>Schedule = every 120, Next = 0, Prev = 0, Name = ''a'', Job = jobB\<rparr>"
    by (simp_all add: ex_stuck_state)
  then show ?thesis
    by (simp add: stuck_def entry_of_def UpdateJob_ex_busy) (simp add: ex_busy_state)
qed

text \<open>
  C7 (the code at the failing input). In the same state \<^verbatim>\<open>"@every 2m"\<close> parses, and
  \<^verbatim>\<open>UpdateJob\<close> and \<^verbatim>\<open>UpdateFunc\<close> come to the send on \<^verbatim>\<open>update\<close> with the mutex held;
  whatever the scheduler and its callers do afterwards the pointer is still being
  sent, so the call never returns, with or without an error.
\<close>

theorem UpdateJob_busy_loop_never_returns:
  "ex_Parse ''@every 2m'' = Inr (every 120) \<and>
   fst (UpdateJob ex_Parse ''@every 2m'' ''a'' jobB ex_busy) = Sending (UpdateMsg 1) \<and>
   UpdateMsg 1 \<in> set (blocked (fold (step srt) evs
       (snd (UpdateJob ex_Parse ''@every 2m'' ''a'' jobB ex_busy)))) \<and>
   fst (UpdateFunc ex_Parse ''@every 2m'' ''a'' (''B'', Returns) ex_busy) =
     Sending (UpdateMsg 1) \<and>
   UpdateMsg 1 \<in> set (blocked (fold (step srt) evs
       (snd (UpdateFunc ex_Parse ''@every 2m'' ''a'' (''B'', Returns) ex_busy))))"
proof -
  have f: "UpdateFunc ex_Parse ''@every 2m'' ''a'' (''B'', Returns) ex_busy =
      (Sending (UpdateMsg 1), ex_stuck)"
    using UpdateJob_ex_busy by (simp add: UpdateFunc_def jobB_def)
  from stuck_run [OF stuck_ex_stuck, of srt evs]
  have "UpdateMsg 1 \<in> set (blocked (fold (step srt) evs ex_stuck))"
    by (simp add: stuck_def)
  then show ?thesis
    by (simp add: UpdateJob_ex_busy f) (simp add: ex_Parse_def)
qed





subsection \<open>Snapshots\<close>

text \<open>
  The objects of a snapshot are new, the scheduler holds none of them, and no step
  writes to an object that the scheduler does not hold: after any run they are what
  they were.
\<close>

lemma apart_run:
  assumes "sorter srt" and "apart snap c"
  shows "apart snap (fold (step srt) evs c) \<and>
         map (\<lambda>a. heap (fold (step srt) evs c) ! a) snap = map (\<lambda>a. heap c ! a) snap"
  using assms(2)
proof (induction evs arbitrary: c)
  case Nil
  then show ?case by simp
next
  case (Cons ev evs)
  from apart_touch [OF touches_step [OF assms(1)] Cons.prems, of ev]
  have "apart snap (step srt ev c)"
    and "map (\<lambda>a. heap (step srt ev c) ! a) snap = map (\<lambda>a. heap c ! a) snap"
    by simp_all
  with Cons.IH [of "step srt ev c"] show ?case by simp
qed

lemma nth_fresh: "map (\<lambda>a. (xs @ ys) ! a) [length xs ..< length xs + length ys] = ys"
  by (rule nth_equalityI) (simp_all add: nth_append)

lemma entrySnapshot_copies:
  assumes "inside c" and "entrySnapshot c = (snap, c')"
  shows "map (\<lambda>a. heap c' ! a) snap = map (\<lambda>e. copy_of (heap c ! e)) (mapToSlice (entries c))"
    and "apart snap c'" and "list_all (\<lambda>a. length (heap c) \<le> a) snap"
    and "take (length (heap c)) (heap c') = heap c"
proof -
  let ?new = "map (\<lambda>e. copy_of (heap c ! e)) (mapToSlice (entries c))"
  from assms(2) have snap: "snap = [length (heap c) ..< length (heap c) + length ?new]"
    and c': "c' = c\<lparr>heap := heap c @ ?new\<rparr>"
    by (simp_all add: entrySnapshot_def copy_of_def mapToSlice_def)
  show "map (\<lambda>a. heap c' ! a) snap = ?new"
    unfolding snap c' using nth_fresh [of "heap c" ?new] by simp
  have h: "p < length (heap c)" if "p \<in> set (held c)" for p
    using assms(1) that by (simp add: inside_def list_all_iff)
  have hc: "held c' = held c"
    by (simp add: c' held_def)
  show "apart snap c'"
    unfolding apart_def list_all_iff hc snap using h by (fastforce simp: c')
  show "list_all (\<lambda>a. length (heap c) \<le> a) snap"
    unfolding snap by (simp add: list_all_iff)
  show "take (length (heap c)) (heap c') = heap c"
    by (simp add: c')
qed

text \<open>
  On a scheduler that is not running, \<^verbatim>\<open>Entries\<close> returns the copies. On a running one
  whose loop waits, with the mutex free and no other caller of \<^verbatim>\<open>Entries\<close> about, the
  four steps of the exchange end with the copies returned and the loop back in its
  \<^verbatim>\<open>select\<close>.
\<close>

lemma Entries_not_running:
  assumes "inside c" and "\<not> running c" and "\<not> mu c"
  shows "\<exists>snap. answers (step srt Ev_Entries c) = answers c @ [Some snap] \<and>
           map (\<lambda>a. heap (step srt Ev_Entries c) ! a) snap =
             map (\<lambda>e. copy_of (heap c ! e)) (mapToSlice (entries c)) \<and>
           apart snap (step srt Ev_Entries c) \<and> entries (step srt Ev_Entries c) = entries c"
proof -
  obtain snap c' where es: "entrySnapshot c = (snap, c')" by (cases "entrySnapshot c")
  note cp = entrySnapshot_copies [OF assms(1) es]
  note fr = entrySnapshot_frame [OF es]
  from es assms(2,3) have st: "step srt Ev_Entries c = c'\<lparr>answers := answers c' @ [Some snap]\<rparr>"
    by (simp add: Entries_def)
  have "apart snap (c'\<lparr>answers := answers c' @ [Some snap]\<rparr>)"
    using cp(2) by (simp add: apart_def held_def)
  with cp(1) fr(2,7) show ?thesis unfolding st by auto
qed

lemma Entries_single_caller:
  assumes "inside c" and "running c" and "\<not> mu c" and "loop c = Some (Select es now d)"
    and "SnapReq \<notin> set (blocked c)" and "SnapWait \<notin> set (blocked c)"
    and "c' = fold (step srt) [Ev_Entries, Ev_snap_request, Ev_snap_make, Ev_snap_answer] c"
  shows "\<exists>snap. answers c' = answers c @ [Some snap] \<and>
           map (\<lambda>a. heap c' ! a) snap =
             map (\<lambda>e. copy_of (heap c ! e)) (mapToSlice (entries c)) \<and>
           apart snap c' \<and> entries c' = entries c \<and> loop c' = loop c \<and>
           blocked c' = blocked c"
proof -
  let ?c2 = "c\<lparr>blocked := blocked c @ [SnapWait], loop := Some (SnapLock es now d)\<rparr>"
  have r1: "remove1 SnapReq (blocked c @ [SnapReq]) = blocked c"
    using assms(5) by (simp add: remove1_append)
  have r2: "remove1 SnapWait (blocked c @ [SnapWait]) = blocked c"
    using assms(6) by (simp add: remove1_append)
  have s2: "fold (step srt) [Ev_Entries, Ev_snap_request] c = ?c2"
    using assms(2,4) r1 by (simp add: Entries_def snapshot_request_def)
  obtain snap c3 where es: "entrySnapshot ?c2 = (snap, c3)" by (cases "entrySnapshot ?c2")
  have i2: "inside ?c2"
    using assms(1,4) by (simp add: inside_def held_def)
  note cp = entrySnapshot_copies [OF i2 es]
  note fr = entrySnapshot_frame [OF es]
  from es assms(3) have s3: "step srt Ev_snap_make ?c2 = c3\<lparr>loop := Some (SnapSend es now d snap)\<rparr>"
    by (simp add: snapshot_make_def)
  from fr(4,7) r2
  have s4: "step srt Ev_snap_answer (c3\<lparr>loop := Some (SnapSend es now d snap)\<rparr>) =
      c3\<lparr>blocked := blocked c, answers := answers c @ [Some snap],
         loop := Some (Select es now d)\<rparr>"
    by (simp add: snapshot_answer_def)
  have c': "c' = c3\<lparr>blocked := blocked c, answers := answers c @ [Some snap],
         loop := Some (Select es now d)\<rparr>"
    using s2 s3 s4 by (simp add: assms(7))
  have "held c' = held c"
    using fr(2) assms(4) by (simp add: c' held_def)
  moreover have "held c3 = held ?c2"
    using fr(2,3,4) by (simp add: held_def)
  moreover have "set (held ?c2) = set (held c)"
    using assms(4) by (simp add: held_def)
  ultimately have "apart snap c'"
    using cp(2) by (simp add: apart_def c')
  with cp(1) fr(2) assms(4) show ?thesis
    by (auto simp: c')
qed

text \<open>
  C9 (the code at the failing input). The scheduler runs with \<open>p\<close> and \<open>a\<close> registered and
  its loop waits; two goroutines call \<^verbatim>\<open>Entries\<close>. The first one's request is received by
  the loop; before the loop sends its answer, the second one's request, sent on the
  same channel, is received by the first caller as its answer: that call returns
  \<^verbatim>\<open>nil\<close>, no copy of any entry, while the registry holds two. The loop's answer then
  goes to the second caller.
\<close>

theorem Entries_two_callers_nil:
  "running ex_two \<and> entries ex_two = [(''p'', 0), (''a'', 1)] \<and> answers ex_two = [] \<and>
   blocked ex_two = [] \<and> \<not> mu ex_two \<and> loop ex_two = Some (Select [0, 1] 0 60) \<and>
   blocked (fold (step sort_byTime) [Ev_Entries, Ev_snap_request, Ev_Entries] ex_two) =
     [SnapWait, SnapReq] \<and>
   answers (fold (step sort_byTime)
       [Ev_Entries, Ev_snap_request, Ev_Entries, Ev_snap_cross] ex_two) = [None] \<and>
   entries (fold (step sort_byTime)
       [Ev_Entries, Ev_snap_request, Ev_Entries, Ev_snap_cross] ex_two) =
     [(''p'', 0), (''a'', 1)] \<and>
   answers (fold (step sort_byTime)
       [Ev_Entries, Ev_snap_request, Ev_Entries, Ev_snap_cross, Ev_snap_make, Ev_snap_answer]
       ex_two) = [None, Some [2, 3]]"
proof -
  have v: "ex_two =
      \<lparr>entries = [(''p'', 0), (''a'', 1)],
       heap = [\<lparr>Schedule = every 60, Next = 60, Prev = 0, Name = ''p'', Job = jobP\<rparr>,
               \<lparr>Schedule = every 60, Next = 60, Prev = 0, Name = ''a'', Job = jobA\<rparr>],
       running = True, ErrorLog = None, stdlog = [], loop = Some (Select [0, 1] 0 60),
       blocked = [], spawned = [], mu = False, answers = []\<rparr>"
    by (simp add: loop_defs time_defs ex_defs)
  show ?thesis
    by (simp add: v Entries_def snapshot_request_def snapshot_cross_def snapshot_make_def
        snapshot_answer_def entrySnapshot_def upt_rec)
qed

end
